theory Spec2Isabelle
  imports Main "HOL-Library.Word"
begin

unbundle bit_operations_syntax

section \<open>The Morse code driver (morsecode.c)\<close>

subsection \<open>Constants and the letter table\<close>

type_synonym ushort = "16 word"

definition INTER_WORD_DOTTIMES :: int where
  "INTER_WORD_DOTTIMES = 7"

definition INTER_LETTER_DOTTIMES :: int where
  "INTER_LETTER_DOTTIMES = 3"

definition ONES_IN_A_DOT :: int where
  "ONES_IN_A_DOT = 1"

definition ONES_IN_A_DASH :: int where
  "ONES_IN_A_DASH = 3"

definition DOT_SYMBOL :: char where
  "DOT_SYMBOL = CHR ''.''"

definition DASH_SYMBOL :: char where
  "DASH_SYMBOL = CHR ''-''"

definition SEPARATOR_SYMBOL :: char where
  "SEPARATOR_SYMBOL = CHR '' ''"

text \<open>The byte \<^verbatim>\<open>'\n'\<close> that \<^verbatim>\<open>my_read\<close> puts into the queue.\<close>

definition NEWLINE :: char where
  "NEWLINE = CHR 0x0A"

text \<open>\<^verbatim>\<open>#define QUEUE_SIZE (1 << 15)\<close>\<close>

definition QUEUE_SIZE :: nat where
  "QUEUE_SIZE = 2 ^ 15"

text \<open>The table of bit patterns, indexed by the letter's position in the alphabet; the most
  significant bit is output first.\<close>

definition letter_to_morsecode_bits_map :: "ushort list" where
  "letter_to_morsecode_bits_map =
    [0xB800, 0xEA80, 0xEBA0, 0xEA00, 0x8000, 0xAE80, 0xEE80, 0xAA00, 0xA000,
     0xBBB8, 0xEB80, 0xBA80, 0xEE00, 0xE800, 0xEEE0, 0xBBA0, 0xEEB8, 0xBA00,
     0xA800, 0xE000, 0xAE00, 0xAB80, 0xBB80, 0xEAE0, 0xEBB8, 0xEEA0]"

subsection \<open>The driver's state and its environment\<close>

text \<open>
  The driver's globals are the fifo \<^verbatim>\<open>flashed_codes_queue\<close> and the parameter
  \<^verbatim>\<open>dottime\<close>. What the driver does to the LED trigger and to the clock is kept as a
  list of events, oldest first. \<^verbatim>\<open>mutex_lock_interruptible\<close> either takes the mutex or is
  interrupted by a signal; which of the two happens is decided by the environment, so the
  state carries the outcomes of the coming acquisitions (\<open>True\<close>: the mutex is taken); once
  the list is used up, every acquisition succeeds. Calls run one at a time here: the mutex
  itself is not part of the state.
\<close>

datatype errno = EFAULT

datatype event = LED_FULL | LED_OFF | Msleep int

record driver =
  flashed_codes_queue :: "char list"
  dottime :: int
  lock_outcomes :: "bool list"
  events :: "event list"

definition led_trigger_event :: "event \<Rightarrow> driver \<Rightarrow> driver" where
  "led_trigger_event brightness s = s\<lparr>events := events s @ [brightness]\<rparr>"

definition msleep :: "int \<Rightarrow> driver \<Rightarrow> driver" where
  "msleep ms s = s\<lparr>events := events s @ [Msleep ms]\<rparr>"

text \<open>
  The kernel's fifo (\<^verbatim>\<open>linux/kfifo.h\<close>) with \<^verbatim>\<open>QUEUE_SIZE\<close> one-byte slots:
  \<^verbatim>\<open>kfifo_put\<close> stores the byte unless the fifo is full, and then drops it (the driver
  never looks at its result); \<^verbatim>\<open>kfifo_to_user\<close> takes at most \<open>count\<close> bytes from the
  front. When the copy to the destination cannot write \<open>uncopied\<close> of these bytes, only the
  others leave the fifo and the result is an error.
\<close>

definition kfifo_is_empty :: "char list \<Rightarrow> bool" where
  "kfifo_is_empty q = (q = [])"

definition kfifo_is_full :: "char list \<Rightarrow> bool" where
  "kfifo_is_full q = (QUEUE_SIZE \<le> length q)"

definition kfifo_put :: "char list \<Rightarrow> char \<Rightarrow> char list" where
  "kfifo_put q c = (if kfifo_is_full q then q else q @ [c])"

definition kfifo_to_user :: "char list \<Rightarrow> nat \<Rightarrow> nat \<Rightarrow> bool \<times> char list \<times> char list" where
  "kfifo_to_user q count uncopied =
    (let len = min count (length q);
         ret = min uncopied len;
         n = len - ret
     in (ret \<noteq> 0, take n q, drop n q))"

definition put_symbol :: "char \<Rightarrow> driver \<Rightarrow> driver" where
  "put_symbol c s = s\<lparr>flashed_codes_queue := kfifo_put (flashed_codes_queue s) c\<rparr>"

text \<open>\<^verbatim>\<open>queue_lock\<close> returns what \<^verbatim>\<open>mutex_lock_interruptible\<close> returns: 0, or
  \<^verbatim>\<open>-EINTR\<close> (that is \<open>-4\<close>) when a signal interrupts the acquisition.\<close>

definition queue_lock :: "driver \<Rightarrow> int \<times> driver" where
  "queue_lock s =
    (case lock_outcomes s of
       [] \<Rightarrow> (0, s)
     | b # bs \<Rightarrow> (if b then 0 else - 4, s\<lparr>lock_outcomes := bs\<rparr>))"

definition queue_unlock :: "driver \<Rightarrow> driver" where
  "queue_unlock s = s"

subsection \<open>Helper and processing functions\<close>

definition put_valid_morsecode_into_queue :: "int \<Rightarrow> driver \<Rightarrow> (errno + unit) \<times> driver" where
  "put_valid_morsecode_into_queue consecutive_ones_seen s =
    (if consecutive_ones_seen = ONES_IN_A_DOT \<or> consecutive_ones_seen = ONES_IN_A_DASH then
       (case queue_lock s of (r, s1) \<Rightarrow>
          if r \<noteq> 0 then (Inl EFAULT, s1)
          else
            let s2 = (if consecutive_ones_seen = ONES_IN_A_DOT then put_symbol DOT_SYMBOL s1
                      else if consecutive_ones_seen = ONES_IN_A_DASH then put_symbol DASH_SYMBOL s1
                      else s1)
            in (Inr (), queue_unlock s2))
     else (Inr (), s))"

text \<open>The leftmost bit of the pattern, as the \<^verbatim>\<open>unsigned char\<close> the source keeps it in.\<close>

definition leftmost_bit :: "ushort \<Rightarrow> 8 word" where
  "leftmost_bit morsecode = ucast (drop_bit 15 morsecode)"

text \<open>The \<^verbatim>\<open>while (morsecode != 0)\<close> loop of \<^verbatim>\<open>flash_morsecode\<close>. It returns the error of
  a failed flush, or the count of ones it has seen when the pattern has become zero.\<close>

function flash_loop :: "ushort \<Rightarrow> int \<Rightarrow> driver \<Rightarrow> (errno + int) \<times> driver" where
  "flash_loop morsecode consecutive_ones_seen s =
    (if morsecode \<noteq> 0 then
       if leftmost_bit morsecode = 1 then
         flash_loop (push_bit 1 morsecode) (consecutive_ones_seen + 1)
           (msleep (dottime s) (led_trigger_event LED_FULL s))
       else
         (case put_valid_morsecode_into_queue consecutive_ones_seen s of
            (Inl e, s1) \<Rightarrow> (Inl EFAULT, s1)
          | (Inr u, s1) \<Rightarrow>
              flash_loop (push_bit 1 morsecode) 0
                (msleep (dottime s1) (led_trigger_event LED_OFF s1)))
     else (Inr consecutive_ones_seen, s))"
  by pat_completeness auto

text \<open>The loop ends because the pattern has 16 bits: every shift to the left moves the lowest
  set bit up, and there are at most 16 positions before the pattern is zero.\<close>

definition shifts_left :: "ushort \<Rightarrow> nat" where
  "shifts_left m = length (filter (\<lambda>n. push_bit n m \<noteq> 0) [0..<16])"

termination flash_loop
proof -
  have count: "shifts_left m = card {n. n < 16 \<and> push_bit n m \<noteq> 0}" for m :: ushort
  proof -
    have "{n. push_bit n m \<noteq> 0} \<inter> set [0..<16] = {n. n < 16 \<and> push_bit n m \<noteq> 0}"
      by auto
    then show ?thesis
      by (simp add: shifts_left_def distinct_length_filter)
  qed
  have less: "shifts_left (push_bit 1 m) < shifts_left m" if "m \<noteq> 0" for m :: ushort
  proof -
    let ?A = "{n. n < 16 \<and> push_bit n m \<noteq> 0}"
    let ?B = "{n. n < 16 \<and> push_bit n (push_bit 1 m) \<noteq> 0}"
    have sub: "Suc ` ?B \<subseteq> ?A - {0}"
    proof
      fix k assume "k \<in> Suc ` ?B"
      then obtain n where k: "k = Suc n" and n: "n < 16"
        and nz: "push_bit n (push_bit 1 m) \<noteq> 0"
        by auto
      from nz have nz': "push_bit (Suc n) m \<noteq> 0"
        by (simp add: push_bit_push_bit)
      have "push_bit 15 (push_bit 1 m) = push_bit 16 m"
        unfolding push_bit_push_bit by simp
      then have "push_bit 15 (push_bit 1 m) = 0"
        by simp
      with nz have "n \<noteq> 15"
        by auto
      with n have "Suc n < 16" by simp
      with nz' k show "k \<in> ?A - {0}" by simp
    qed
    have "0 \<in> ?A" using that by simp
    then have "?A - {0} \<subset> ?A" by blast
    then have "card (?A - {0}) < card ?A"
      by (intro psubset_card_mono) simp_all
    moreover have "card (Suc ` ?B) \<le> card (?A - {0})"
      using sub by (intro card_mono) simp_all
    moreover have "card (Suc ` ?B) = card ?B"
      by (rule card_image) simp
    ultimately show ?thesis by (simp only: count)
  qed
  have less_double: "shifts_left (m * 2) < shifts_left m" if "m \<noteq> 0" for m :: ushort
    using less [OF that] by simp
  show ?thesis
    by (relation "measure (\<lambda>(m, c, s). shifts_left m)") (auto intro: less_double)
qed

definition flash_morsecode :: "ushort \<Rightarrow> driver \<Rightarrow> (errno + unit) \<times> driver" where
  "flash_morsecode morsecode s =
    (case flash_loop morsecode 0 s of
       (Inl e, s1) \<Rightarrow> (Inl EFAULT, s1)
     | (Inr consecutive_ones_seen, s1) \<Rightarrow>
         (case put_valid_morsecode_into_queue consecutive_ones_seen s1 of
            (Inl e, s2) \<Rightarrow> (Inl EFAULT, s2)
          | (Inr u, s2) \<Rightarrow> (Inr (), msleep (dottime s2) (led_trigger_event LED_OFF s2))))"

text \<open>What \<^verbatim>\<open>process_morsecode\<close> does with a letter, once \<open>letter_idx\<close> is known: the
  separator between letters, then the letter's pattern.\<close>

definition process_letter :: "nat \<Rightarrow> bool \<Rightarrow> driver \<Rightarrow> (errno + unit) \<times> driver" where
  "process_letter letter_idx is_not_first_char s =
    (case (if is_not_first_char then
             (case queue_lock s of (r, s1) \<Rightarrow>
                if r \<noteq> 0 then (Inl EFAULT, s1)
                else (Inr (),
                      msleep ((INTER_LETTER_DOTTIMES - 1) * dottime s1)
                        (queue_unlock (put_symbol SEPARATOR_SYMBOL s1))))
           else (Inr (), s)) of
       (Inl e, s2) \<Rightarrow> (Inl EFAULT, s2)
     | (Inr u, s2) \<Rightarrow>
         (case flash_morsecode (letter_to_morsecode_bits_map ! letter_idx) s2 of
            (Inl e, s3) \<Rightarrow> (Inl EFAULT, s3)
          | (Inr u, s3) \<Rightarrow> (Inr (), s3)))"

definition process_morsecode :: "char \<Rightarrow> bool \<Rightarrow> driver \<Rightarrow> (errno + unit) \<times> driver" where
  "process_morsecode ch is_not_first_char s =
    (if of_char CHR ''a'' \<le> (of_char ch :: nat) \<and> (of_char ch :: nat) \<le> of_char CHR ''z'' then
       process_letter (of_char ch - of_char CHR ''a'') is_not_first_char s
     else if of_char CHR ''A'' \<le> (of_char ch :: nat) \<and> (of_char ch :: nat) \<le> of_char CHR ''Z'' then
       process_letter (of_char ch - of_char CHR ''A'') is_not_first_char s
     else if ch = CHR '' '' then
       (case queue_lock s of (r, s1) \<Rightarrow>
          if r \<noteq> 0 then (Inl EFAULT, s1)
          else (Inr (),
                msleep ((INTER_WORD_DOTTIMES - INTER_LETTER_DOTTIMES) * dottime s1)
                  (queue_unlock (put_symbol SEPARATOR_SYMBOL (put_symbol SEPARATOR_SYMBOL s1)))))
     else (Inr (), s))"

definition is_letter :: "char \<Rightarrow> bool" where
  "is_letter ch \<longleftrightarrow>
    (of_char CHR ''a'' \<le> (of_char ch :: nat) \<and> (of_char ch :: nat) \<le> of_char CHR ''z'') \<or>
    (of_char CHR ''A'' \<le> (of_char ch :: nat) \<and> (of_char ch :: nat) \<le> of_char CHR ''Z'')"

definition is_morsecode_char :: "char \<Rightarrow> bool" where
  "is_morsecode_char ch \<longleftrightarrow> is_letter ch \<or> ch = CHR '' ''"

subsection \<open>File operation callbacks\<close>

text \<open>
  \<^verbatim>\<open>my_read\<close> is given \<open>count\<close> and, from the environment, the number of bytes the
  destination refuses (\<open>uncopied\<close>, 0 for a writable destination). It returns its result,
  the bytes that reached the destination and the new state. The file position is not part
  of the model.
\<close>

definition my_read :: "nat \<Rightarrow> nat \<Rightarrow> driver \<Rightarrow> (errno + nat) \<times> char list \<times> driver" where
  "my_read count uncopied s =
    (case queue_lock s of (r, s1) \<Rightarrow>
       if r \<noteq> 0 then (Inl EFAULT, [], s1)
       else
         let s2 = (if \<not> kfifo_is_empty (flashed_codes_queue s1) then put_symbol NEWLINE s1
                   else s1)
         in (case kfifo_to_user (flashed_codes_queue s2) count uncopied of
               (failed, copied, rest) \<Rightarrow>
                 if failed then
                   (Inl EFAULT, copied, queue_unlock (s2\<lparr>flashed_codes_queue := rest\<rparr>))
                 else
                   (Inr (length copied), copied,
                    queue_unlock (s2\<lparr>flashed_codes_queue := rest\<rparr>))))"

text \<open>
  The buffer handed to \<^verbatim>\<open>my_write\<close> is a list as long as \<open>count\<close>; a byte that
  \<^verbatim>\<open>copy_from_user\<close> cannot read is \<open>None\<close>. The indices are natural numbers: the
  kernel never passes a \<open>count\<close> that an \<^verbatim>\<open>int\<close> cannot hold.
\<close>

text \<open>The first loop: the index of the first letter, or \<open>count\<close>.\<close>

function skip_leading :: "char option list \<Rightarrow> nat \<Rightarrow> errno + nat" where
  "skip_leading buff buff_idx =
    (if buff_idx < length buff then
       (case buff ! buff_idx of
          None \<Rightarrow> Inl EFAULT
        | Some ch \<Rightarrow>
            if ch \<noteq> CHR '' '' \<and> is_letter ch then Inr buff_idx
            else skip_leading buff (buff_idx + 1))
     else Inr buff_idx)"
  by pat_completeness auto

termination skip_leading
  by (relation "measure (\<lambda>(buff, i). length buff - i)") auto

text \<open>The loop \<^verbatim>\<open>while (++peek_buff_idx < count)\<close>: the value of \<open>peek_buff_idx\<close> when
  the loop is left.\<close>

function peek_loop :: "char option list \<Rightarrow> nat \<Rightarrow> errno + nat" where
  "peek_loop buff peek_buff_idx =
    (if peek_buff_idx + 1 < length buff then
       (case buff ! (peek_buff_idx + 1) of
          None \<Rightarrow> Inl EFAULT
        | Some peek_ahead_ch \<Rightarrow>
            if peek_ahead_ch \<noteq> CHR '' '' \<and> is_letter peek_ahead_ch then Inr (peek_buff_idx + 1)
            else peek_loop buff (peek_buff_idx + 1))
     else Inr (peek_buff_idx + 1))"
  by pat_completeness auto

termination peek_loop
  by (relation "measure (\<lambda>(buff, i). length buff - i)") auto

text \<open>The block \<^verbatim>\<open>if (ch == ' ') { ... }\<close> of the main loop: \<open>None\<close> is its
  \<^verbatim>\<open>break\<close>, \<open>Some i\<close> the value of \<open>buff_idx\<close> after it.\<close>

definition peek_ahead :: "char option list \<Rightarrow> nat \<Rightarrow> char \<Rightarrow> errno + nat option" where
  "peek_ahead buff buff_idx ch =
    (if ch = CHR '' '' then
       (case peek_loop buff buff_idx of
          Inl e \<Rightarrow> Inl EFAULT
        | Inr peek_buff_idx \<Rightarrow>
            if length buff \<le> peek_buff_idx then Inr None
            else Inr (Some (peek_buff_idx - 1)))
     else Inr (Some buff_idx))"

function write_loop :: "char option list \<Rightarrow> nat \<Rightarrow> bool \<Rightarrow> driver \<Rightarrow> (errno + unit) \<times> driver" where
  "write_loop buff buff_idx has_processed_first_char s =
    (if buff_idx < length buff then
       (case buff ! buff_idx of
          None \<Rightarrow> (Inl EFAULT, s)
        | Some ch \<Rightarrow>
            (case peek_ahead buff buff_idx ch of
               Inl e \<Rightarrow> (Inl EFAULT, s)
             | Inr None \<Rightarrow> (Inr (), s)
             | Inr (Some buff_idx') \<Rightarrow>
                 if is_morsecode_char ch then
                   (case process_morsecode ch has_processed_first_char s of
                      (Inl e, s1) \<Rightarrow> (Inl EFAULT, s1)
                    | (Inr u, s1) \<Rightarrow> write_loop buff (buff_idx' + 1) True s1)
                 else write_loop buff (buff_idx' + 1) has_processed_first_char s))
     else (Inr (), s))"
  by pat_completeness auto

termination write_loop
proof -
  have peek_gt: "i < p" if "peek_loop buff i = Inr p" for buff i p
    using that
  proof (induction buff i rule: peek_loop.induct)
    case (1 buff i)
    show ?case
    proof (cases "i + 1 < length buff")
      case False
      with "1.prems" show ?thesis by simp
    next
      case True
      note in_range = True
      show ?thesis
      proof (cases "buff ! (i + 1)")
        case None
        with in_range "1.prems" show ?thesis by simp
      next
        case (Some c)
        show ?thesis
        proof (cases "c \<noteq> CHR '' '' \<and> is_letter c")
          case True
          with in_range Some "1.prems" show ?thesis by auto
        next
          case False
          with in_range Some "1.prems" have "peek_loop buff (i + 1) = Inr p"
            by auto
          with "1.IH" [OF in_range Some False] show ?thesis by simp
        qed
      qed
    qed
  qed
  have ahead: "i \<le> j \<and> j < length buff"
    if "peek_ahead buff i ch = Inr (Some j)" "i < length buff" for buff i ch j
    using that peek_gt [of buff i]
    by (auto simp: peek_ahead_def split: if_splits sum.splits)
  show ?thesis
    by (relation "measure (\<lambda>(buff, i, f, s). length buff - i)")
      (auto dest!: ahead)
qed

definition my_write :: "char option list \<Rightarrow> driver \<Rightarrow> (errno + nat) \<times> driver" where
  "my_write buff s =
    (case skip_leading buff 0 of
       Inl e \<Rightarrow> (Inl EFAULT, s)
     | Inr buff_idx \<Rightarrow>
         (case write_loop buff buff_idx False s of
            (Inl e, s1) \<Rightarrow> (Inl EFAULT, s1)
          | (Inr u, s1) \<Rightarrow> (Inr (length buff), s1)))"

subsection \<open>Driver initialization\<close>

text \<open>
  \<^verbatim>\<open>my_init\<close> empties the fifo and replaces a \<^verbatim>\<open>dottime\<close> parameter outside 1 to 2000 by
  the default. Its arguments are the module parameter and, for the model, the outcomes of
  the acquisitions to come. The registrations and the kernel log are not part of the model.
\<close>

definition MIN_DOT_TIME :: int where
  "MIN_DOT_TIME = 1"

definition MAX_DOT_TIME :: int where
  "MAX_DOT_TIME = 2000"

definition DEFAULT_DOT_TIME :: int where
  "DEFAULT_DOT_TIME = 200"

definition my_init :: "int \<Rightarrow> bool list \<Rightarrow> driver" where
  "my_init dottime_param outcomes =
    \<lparr>flashed_codes_queue = [],
     dottime = (if dottime_param < MIN_DOT_TIME \<or> dottime_param > MAX_DOT_TIME
                then DEFAULT_DOT_TIME else dottime_param),
     lock_outcomes = outcomes,
     events = []\<rparr>"

subsection \<open>Notions used to state the properties\<close>

text \<open>Putting a sequence of symbols into the fifo, one \<^verbatim>\<open>kfifo_put\<close> after the other.\<close>

definition enqueue_all :: "char list \<Rightarrow> char list \<Rightarrow> char list" where
  "enqueue_all q xs = foldl kfifo_put q xs"

text \<open>No coming acquisition of the mutex is interrupted.\<close>

definition locks_succeed :: "driver \<Rightarrow> bool" where
  "locks_succeed s \<longleftrightarrow> (\<forall>b \<in> set (lock_outcomes s). b)"

text \<open>The symbol of a run of \<open>n\<close> ones: a dot for one, a dash for three, nothing otherwise.\<close>

definition run_symbol :: "int \<Rightarrow> char list" where
  "run_symbol n = (if n = 1 then [DOT_SYMBOL] else if n = 3 then [DASH_SYMBOL] else [])"

text \<open>The lengths of the maximal runs of ones in a list of bits, from left to right;
  \<open>c\<close> ones have been seen just before the list.\<close>

fun ones_runs_from :: "bool list \<Rightarrow> int \<Rightarrow> int list" where
  "ones_runs_from [] c = (if c = 0 then [] else [c])"
| "ones_runs_from (True # bs) c = ones_runs_from bs (c + 1)"
| "ones_runs_from (False # bs) c = (if c = 0 then [] else [c]) @ ones_runs_from bs 0"

definition ones_runs :: "bool list \<Rightarrow> int list" where
  "ones_runs bs = ones_runs_from bs 0"

definition bits_msb_first :: "ushort \<Rightarrow> bool list" where
  "bits_msb_first m = map (bit m) [15, 14, 13, 12, 11, 10, 9, 8, 7, 6, 5, 4, 3, 2, 1, 0]"

definition decoded :: "bool list \<Rightarrow> int \<Rightarrow> char list" where
  "decoded bs c = concat (map run_symbol (ones_runs_from bs c))"

text \<open>International Morse code for the letters A to Z.\<close>

definition canonical_morse :: "string list" where
  "canonical_morse =
    [''.-'', ''-...'', ''-.-.'', ''-..'', ''.'', ''..-.'', ''--.'', ''....'', ''..'',
     ''.---'', ''-.-'', ''.-..'', ''--'', ''-.'', ''---'', ''.--.'', ''--.-'', ''.-.'',
     ''...'', ''-'', ''..-'', ''...-'', ''.--'', ''-..-'', ''-.--'', ''--..'']"

definition letter_index :: "char \<Rightarrow> nat" where
  "letter_index ch =
    (if of_char CHR ''a'' \<le> (of_char ch :: nat) then of_char ch - of_char CHR ''a''
     else of_char ch - of_char CHR ''A'')"

definition letter_code :: "char \<Rightarrow> string" where
  "letter_code ch = canonical_morse ! letter_index ch"

definition to_lower :: "char \<Rightarrow> char" where
  "to_lower ch = char_of (of_char ch + (32 :: nat))"

text \<open>Joining strings with a separator between neighbours.\<close>

fun join_with :: "string \<Rightarrow> string list \<Rightarrow> string" where
  "join_with sep [] = []"
| "join_with sep [x] = x"
| "join_with sep (x # y # ys) = x @ sep @ join_with sep (y # ys)"

text \<open>What the driver queues for a text of words: the letters' codes, one space between
  the letters of a word, three spaces between words.\<close>

definition word_code :: "string \<Rightarrow> string" where
  "word_code w = join_with '' '' (map letter_code w)"

definition text_code :: "string list \<Rightarrow> string" where
  "text_code ws = join_with ''   '' (map word_code ws)"

text \<open>The same, read off the characters of a text one by one: two separators for a space,
  and for a letter its code, after one separator unless it is the first character
  processed.\<close>

fun queued_for :: "bool \<Rightarrow> string \<Rightarrow> string" where
  "queued_for first [] = []"
| "queued_for first (c # cs) =
    (if c = CHR '' '' then ''  '' else (if first then '' '' else []) @ letter_code c) @
    queued_for True cs"

text \<open>A text of letters and single spaces in which every space is followed by a letter.\<close>

fun spaced_letters :: "string \<Rightarrow> bool" where
  "spaced_letters [] = True"
| "spaced_letters (c # cs) =
    ((if c = CHR '' '' then (case cs of [] \<Rightarrow> False | d # ds \<Rightarrow> is_letter d)
      else is_letter c) \<and> spaced_letters cs)"

text \<open>Words for \<^verbatim>\<open>my_write\<close>: each one is a non-empty string of letters.\<close>

definition letter_words :: "string list \<Rightarrow> bool" where
  "letter_words ws \<longleftrightarrow> (\<forall>w \<in> set ws. w \<noteq> [] \<and> (\<forall>c \<in> set w. is_letter c))"

text \<open>The words of a text: the strings between its spaces.\<close>

fun split_words :: "string \<Rightarrow> string list" where
  "split_words [] = [[]]"
| "split_words (c # cs) =
    (if c = CHR '' '' then [] # split_words cs
     else (case split_words cs of [] \<Rightarrow> [[c]] | w # ws \<Rightarrow> (c # w) # ws))"

text \<open>A text of letters and single spaces that begins with a letter and does not end with a
  space.\<close>

definition single_spaced :: "string \<Rightarrow> bool" where
  "single_spaced cs \<longleftrightarrow> cs \<noteq> [] \<and> is_letter (hd cs) \<and> spaced_letters cs"

text \<open>The stream the specification announces for a text: the dots and dashes of a letter
  one space apart, letters one space apart, words two spaces apart.\<close>

definition spec_letter_code :: "char \<Rightarrow> string" where
  "spec_letter_code ch = join_with '' '' (map (\<lambda>x. [x]) (letter_code ch))"

definition spec_text_code :: "string list \<Rightarrow> string" where
  "spec_text_code ws =
    join_with ''  '' (map (\<lambda>w. join_with '' '' (map spec_letter_code w)) ws)"

text \<open>The state of the driver when the module has been loaded with the default dot time,
  and no signal is to come.\<close>

definition loaded :: driver where
  "loaded = my_init DEFAULT_DOT_TIME []"

text \<open>A state whose queue holds \<^verbatim>\<open>QUEUE_SIZE\<close> dots.\<close>

definition full_queue :: driver where
  "full_queue = loaded\<lparr>flashed_codes_queue := replicate QUEUE_SIZE CHR ''.''\<rparr>"

text \<open>A state whose queue holds four dots.\<close>

definition four_dots :: driver where
  "four_dots = loaded\<lparr>flashed_codes_queue := ''....''\<rparr>"

text \<open>The outcomes \<open>l\<close> of the acquisitions before an operation and the outcomes \<open>l'\<close>
  left after it. \<open>acquired_until l l'\<close>: the acquisitions made were all successful.
  \<open>interrupted_at l l'\<close>: the first interrupted acquisition of \<open>l\<close> was the last one
  made.\<close>

fun acquired_until :: "bool list \<Rightarrow> bool list \<Rightarrow> bool" where
  "acquired_until [] l' \<longleftrightarrow> l' = []"
| "acquired_until (b # bs) l' \<longleftrightarrow> b # bs = l' \<or> (b \<and> acquired_until bs l')"

fun interrupted_at :: "bool list \<Rightarrow> bool list \<Rightarrow> bool" where
  "interrupted_at [] l' \<longleftrightarrow> False"
| "interrupted_at (b # bs) l' \<longleftrightarrow> (if b then interrupted_at bs l' else bs = l')"

text \<open>The loaded driver when a signal interrupts the next acquisition of the mutex.\<close>

definition signal_pending :: driver where
  "signal_pending = loaded\<lparr>lock_outcomes := [False]\<rparr>"

definition locks_used :: "bool \<Rightarrow> driver \<Rightarrow> driver \<Rightarrow> bool" where
  "locks_used failed s s' \<longleftrightarrow>
    (if failed then interrupted_at (lock_outcomes s) (lock_outcomes s')
     else acquired_until (lock_outcomes s) (lock_outcomes s'))"

text \<open>The number of acquisitions of the lock that \<^verbatim>\<open>my_write\<close> makes for a text of letters and
  single spaces when none is interrupted: one for a space, one for the separator before a
  letter that is not the first, one for each dot or dash.\<close>

fun locks_needed :: "bool \<Rightarrow> string \<Rightarrow> nat" where
  "locks_needed first [] = 0"
| "locks_needed first (c # cs) =
    (if c = CHR '' '' then 1 else (if first then 1 else 0) + length (letter_code c)) +
    locks_needed True cs"

text \<open>The loaded driver when a signal interrupts the second acquisition to come.\<close>

definition signal_at_gap :: driver where
  "signal_at_gap = loaded\<lparr>lock_outcomes := [True, False]\<rparr>"

text \<open>\<open>acquires n s failed s'\<close>: an operation that makes \<open>n\<close> acquisitions when none is
  interrupted has failed exactly when one of the next \<open>n\<close> outcomes of \<open>s\<close> is an
  interruption, and otherwise has used up \<open>n\<close> outcomes.\<close>

definition acquires :: "nat \<Rightarrow> driver \<Rightarrow> bool \<Rightarrow> driver \<Rightarrow> bool" where
  "acquires n s failed s' \<longleftrightarrow>
    (failed = (\<not> list_all id (take n (lock_outcomes s)))) \<and>
    (failed \<or> lock_outcomes s' = drop n (lock_outcomes s))"

text \<open>One \<^verbatim>\<open>my_write\<close> of the letter e, and the state reached from the loaded driver by
  a write of e, a \<^verbatim>\<open>my_read\<close> with \<open>count\<close> 0 and 32766 more writes of e.\<close>

definition write_e :: "driver \<Rightarrow> driver" where
  "write_e s = snd (my_write (map Some ''e'') s)"

definition stale_newline_full :: driver where
  "stale_newline_full = (write_e ^^ 32766) (snd (snd (my_read 0 0 (write_e loaded))))"

section \<open>Properties\<close>

subsection \<open>The fifo and the lock\<close>

lemma loaded_state:
  "loaded = \<lparr>flashed_codes_queue = [], dottime = 200, lock_outcomes = [], events = []\<rparr>"
  by (simp add: loaded_def my_init_def MIN_DOT_TIME_def MAX_DOT_TIME_def DEFAULT_DOT_TIME_def)

lemma enqueue_all_Nil [simp]: "enqueue_all q [] = q"
  by (simp add: enqueue_all_def)

lemma enqueue_all_Cons [simp]: "enqueue_all q (x # xs) = enqueue_all (kfifo_put q x) xs"
  by (simp add: enqueue_all_def)

lemma enqueue_all_append: "enqueue_all q (xs @ ys) = enqueue_all (enqueue_all q xs) ys"
  by (simp add: enqueue_all_def)

lemma enqueue_all_room:
  "length q + length xs \<le> QUEUE_SIZE \<Longrightarrow> enqueue_all q xs = q @ xs"
  by (induction xs arbitrary: q) (auto simp: kfifo_put_def kfifo_is_full_def)

lemma queue_lock_succeeds:
  "locks_succeed s \<Longrightarrow> queue_lock s = (0, s\<lparr>lock_outcomes := tl (lock_outcomes s)\<rparr>)"
  by (auto simp: locks_succeed_def queue_lock_def split: list.splits)

lemma locks_succeed_tl [simp]:
  "locks_succeed s \<Longrightarrow> locks_succeed (s\<lparr>lock_outcomes := tl (lock_outcomes s)\<rparr>)"
  by (cases "lock_outcomes s") (auto simp: locks_succeed_def)

lemma locks_succeed_simps [simp]:
  "locks_succeed (msleep d s) = locks_succeed s"
  "locks_succeed (led_trigger_event e s) = locks_succeed s"
  "locks_succeed (put_symbol c s) = locks_succeed s"
  "locks_succeed (queue_unlock s) = locks_succeed s"
  by (simp_all add: locks_succeed_def msleep_def led_trigger_event_def put_symbol_def
      queue_unlock_def)

lemma queue_simps [simp]:
  "flashed_codes_queue (msleep d s) = flashed_codes_queue s"
  "flashed_codes_queue (led_trigger_event e s) = flashed_codes_queue s"
  "flashed_codes_queue (put_symbol c s) = kfifo_put (flashed_codes_queue s) c"
  "flashed_codes_queue (queue_unlock s) = flashed_codes_queue s"
  by (simp_all add: msleep_def led_trigger_event_def put_symbol_def queue_unlock_def)

lemma put_valid_succeeds:
  assumes "locks_succeed s"
  shows "\<exists>s'. put_valid_morsecode_into_queue c s = (Inr (), s') \<and> locks_succeed s' \<and>
    flashed_codes_queue s' = enqueue_all (flashed_codes_queue s) (run_symbol c)"
  using assms
  by (auto simp: put_valid_morsecode_into_queue_def queue_lock_succeeds run_symbol_def
      ONES_IN_A_DOT_def ONES_IN_A_DASH_def Let_def)

lemma ones_runs_from_snoc_False: "ones_runs_from (bs @ [False]) c = ones_runs_from bs c"
  by (induction bs c rule: ones_runs_from.induct) auto

lemma decoded_simps:
  "decoded [] c = run_symbol c"
  "decoded (True # bs) c = decoded bs (c + 1)"
  "decoded (False # bs) c = run_symbol c @ decoded bs 0"
  "decoded (bs @ [False]) c = decoded bs c"
  by (auto simp: decoded_def run_symbol_def ones_runs_from_snoc_False)


lemma leftmost_bit_iff: "leftmost_bit m = 1 \<longleftrightarrow> bit m 15"
proof -
  have "drop_bit 15 m = of_bool (bit m 15)"
  proof (rule bit_eqI)
    fix n
    show "bit (drop_bit 15 m) n = bit (of_bool (bit m 15) :: ushort) n"
    proof (cases n)
      case 0
      then show ?thesis by (simp add: bit_simps)
    next
      case (Suc k)
      have "\<not> bit m (15 + Suc k)"
        using bit_imp_le_length [of m "15 + Suc k"] by auto
      with Suc show ?thesis by (simp add: bit_simps)
    qed
  qed
  then show ?thesis by (simp add: leftmost_bit_def)
qed

lemma bit_shifted: "bit (push_bit 1 m :: ushort) n \<longleftrightarrow> 0 < n \<and> n < 16 \<and> bit m (n - 1)"
  unfolding bit_push_bit_iff by (auto simp: bit_simps dest: bit_imp_le_length)

lemma bit_doubled: "bit (m * 2 :: ushort) n \<longleftrightarrow> 0 < n \<and> n < 16 \<and> bit m (n - 1)"
  using bit_shifted [of m n] by simp

lemma bits_msb_first_shift:
  "bits_msb_first (push_bit 1 m) = tl (bits_msb_first m) @ [False]"
  unfolding bits_msb_first_def by (simp add: bit_doubled)

lemma bits_msb_first_hd: "bits_msb_first m = bit m 15 # tl (bits_msb_first m)"
  by (simp add: bits_msb_first_def)

lemma decoded_zero: "decoded (bits_msb_first 0) c = run_symbol c"
  by (simp add: bits_msb_first_def decoded_simps run_symbol_def)

lemma decoded_shift_one:
  assumes "leftmost_bit m = 1"
  shows "decoded (bits_msb_first m) c = decoded (bits_msb_first (push_bit 1 m)) (c + 1)"
proof -
  from assms have "bits_msb_first m = True # tl (bits_msb_first m)"
    using bits_msb_first_hd [of m] by (simp add: leftmost_bit_iff)
  then have "decoded (bits_msb_first m) c = decoded (tl (bits_msb_first m)) (c + 1)"
    by (metis decoded_simps(2))
  then show ?thesis
    by (simp only: bits_msb_first_shift decoded_simps(4))
qed

lemma decoded_shift_zero:
  assumes "leftmost_bit m \<noteq> 1"
  shows "decoded (bits_msb_first m) c =
    run_symbol c @ decoded (bits_msb_first (push_bit 1 m)) 0"
proof -
  from assms have "bits_msb_first m = False # tl (bits_msb_first m)"
    using bits_msb_first_hd [of m] by (simp add: leftmost_bit_iff)
  then have "decoded (bits_msb_first m) c = run_symbol c @ decoded (tl (bits_msb_first m)) 0"
    by (metis decoded_simps(3))
  then show ?thesis
    by (simp only: bits_msb_first_shift decoded_simps(4))
qed

lemma flash_loop_succeeds:
  "locks_succeed s \<Longrightarrow>
   \<exists>c' s'. flash_loop m c s = (Inr c', s') \<and> locks_succeed s' \<and>
     enqueue_all (flashed_codes_queue s') (run_symbol c') =
     enqueue_all (flashed_codes_queue s) (decoded (bits_msb_first m) c)"
proof (induction m c s rule: flash_loop.induct)
  case (1 m c s)
  show ?case
  proof (cases "m = 0")
    case True
    with "1.prems" show ?thesis
      by (simp add: decoded_zero)
  next
    case False
    note nonzero = False
    show ?thesis
    proof (cases "leftmost_bit m = 1")
      case True
      let ?s2 = "msleep (dottime s) (led_trigger_event LED_FULL s)"
      from "1.prems" have "locks_succeed ?s2" by simp
      from "1.IH"(1) [OF nonzero True this]
      obtain c' s' where run: "flash_loop (push_bit 1 m) (c + 1) ?s2 = (Inr c', s')"
        and ok: "locks_succeed s'"
        and q: "enqueue_all (flashed_codes_queue s') (run_symbol c') =
          enqueue_all (flashed_codes_queue ?s2)
            (decoded (bits_msb_first (push_bit 1 m)) (c + 1))"
        by blast
      have "flash_loop m c s = flash_loop (push_bit 1 m) (c + 1) ?s2"
        using nonzero True by (subst flash_loop.simps) simp
      with run ok q decoded_shift_one [OF True, of c] show ?thesis
        by simp
    next
      case False
      from put_valid_succeeds [OF "1.prems", of c]
      obtain s1 where put: "put_valid_morsecode_into_queue c s = (Inr (), s1)"
        and ok1: "locks_succeed s1"
        and q1: "flashed_codes_queue s1 = enqueue_all (flashed_codes_queue s) (run_symbol c)"
        by blast
      let ?s2 = "msleep (dottime s1) (led_trigger_event LED_OFF s1)"
      from ok1 have "locks_succeed ?s2" by simp
      from "1.IH"(2) [OF nonzero False put [symmetric] refl this]
      obtain c' s' where run: "flash_loop (push_bit 1 m) 0 ?s2 = (Inr c', s')"
        and ok: "locks_succeed s'"
        and q: "enqueue_all (flashed_codes_queue s') (run_symbol c') =
          enqueue_all (flashed_codes_queue ?s2) (decoded (bits_msb_first (push_bit 1 m)) 0)"
        by blast
      have "flash_loop m c s = flash_loop (push_bit 1 m) 0 ?s2"
        using nonzero False put by (subst flash_loop.simps) simp
      with run ok q q1 decoded_shift_zero [OF False, of c] show ?thesis
        by (simp add: enqueue_all_append)
    qed
  qed
qed

lemma flash_morsecode_succeeds:
  assumes "locks_succeed s"
  shows "\<exists>s'. flash_morsecode m s = (Inr (), s') \<and> locks_succeed s' \<and>
    flashed_codes_queue s' =
      enqueue_all (flashed_codes_queue s) (decoded (bits_msb_first m) 0)"
proof -
  from flash_loop_succeeds [OF assms, of m 0]
  obtain c1 s1 where run: "flash_loop m 0 s = (Inr c1, s1)" and ok1: "locks_succeed s1"
    and q1: "enqueue_all (flashed_codes_queue s1) (run_symbol c1) =
      enqueue_all (flashed_codes_queue s) (decoded (bits_msb_first m) 0)"
    by blast
  from put_valid_succeeds [OF ok1, of c1]
  obtain s2 where put: "put_valid_morsecode_into_queue c1 s1 = (Inr (), s2)"
    and ok2: "locks_succeed s2"
    and q2: "flashed_codes_queue s2 = enqueue_all (flashed_codes_queue s1) (run_symbol c1)"
    by blast
  from run put ok2 q1 q2 show ?thesis
    by (simp add: flash_morsecode_def)
qed

lemma queue_lock_fields [simp]:
  "flashed_codes_queue (snd (queue_lock s)) = flashed_codes_queue s"
  "events (snd (queue_lock s)) = events s"
  "dottime (snd (queue_lock s)) = dottime s"
  by (simp_all add: queue_lock_def split: list.splits)

subsection \<open>The flush of a run\<close>

lemma put_valid_other:
  "n \<noteq> 1 \<Longrightarrow> n \<noteq> 3 \<Longrightarrow> put_valid_morsecode_into_queue n s = (Inr (), s)"
  by (simp add: put_valid_morsecode_into_queue_def ONES_IN_A_DOT_def ONES_IN_A_DASH_def)

lemma put_valid_dot:
  "fst (queue_lock s) = 0 \<Longrightarrow>
   put_valid_morsecode_into_queue 1 s = (Inr (), put_symbol DOT_SYMBOL (snd (queue_lock s)))"
  by (cases "queue_lock s")
    (simp add: put_valid_morsecode_into_queue_def ONES_IN_A_DOT_def ONES_IN_A_DASH_def
      queue_unlock_def)

lemma put_valid_dash:
  "fst (queue_lock s) = 0 \<Longrightarrow>
   put_valid_morsecode_into_queue 3 s = (Inr (), put_symbol DASH_SYMBOL (snd (queue_lock s)))"
  by (cases "queue_lock s")
    (simp add: put_valid_morsecode_into_queue_def ONES_IN_A_DOT_def ONES_IN_A_DASH_def
      queue_unlock_def)

text \<open>
  Claim C4. The flush of a run of \<open>n\<close> consecutive ones,
  \<^verbatim>\<open>put_valid_morsecode_into_queue\<close>, puts one dot into the queue when \<open>n = 1\<close> and one
  dash when \<open>n = 3\<close> (with the mutex acquired; the put is the fifo's, which stores the
  symbol at the end of a queue that is not full). For every other \<open>n\<close>, 0 and 2 among
  them, it returns 0 and leaves the whole state as it was: nothing is queued, nothing is
  reported as an error.
\<close>

theorem flush_by_run_length:
  "(n \<noteq> 1 \<and> n \<noteq> 3 \<longrightarrow> put_valid_morsecode_into_queue n s = (Inr (), s)) \<and>
   (fst (queue_lock s) = 0 \<longrightarrow>
      fst (put_valid_morsecode_into_queue 1 s) = Inr () \<and>
      flashed_codes_queue (snd (put_valid_morsecode_into_queue 1 s)) =
        kfifo_put (flashed_codes_queue s) CHR ''.'' \<and>
      fst (put_valid_morsecode_into_queue 3 s) = Inr () \<and>
      flashed_codes_queue (snd (put_valid_morsecode_into_queue 3 s)) =
        kfifo_put (flashed_codes_queue s) CHR ''-'') \<and>
   (fst (queue_lock s) = 0 \<and> length (flashed_codes_queue s) < QUEUE_SIZE \<longrightarrow>
      flashed_codes_queue (snd (put_valid_morsecode_into_queue 1 s)) =
        flashed_codes_queue s @ ''.'' \<and>
      flashed_codes_queue (snd (put_valid_morsecode_into_queue 3 s)) =
        flashed_codes_queue s @ ''-'')"
  by (simp add: put_valid_other put_valid_dot put_valid_dash DOT_SYMBOL_def DASH_SYMBOL_def
      kfifo_put_def kfifo_is_full_def)

theorem flush_by_run_length_witness:
  "put_valid_morsecode_into_queue 2 loaded = (Inr (), loaded) \<and>
   put_valid_morsecode_into_queue 0 loaded = (Inr (), loaded) \<and>
   fst (queue_lock loaded) = 0 \<and> length (flashed_codes_queue loaded) < QUEUE_SIZE \<and>
   flashed_codes_queue (snd (put_valid_morsecode_into_queue 1 loaded)) = ''.'' \<and>
   flashed_codes_queue (snd (put_valid_morsecode_into_queue 3 loaded)) = ''-''"
  using flush_by_run_length [of 2 loaded] flush_by_run_length [of 0 loaded]
  by (simp add: loaded_state queue_lock_def QUEUE_SIZE_def)

subsection \<open>Upper and lower case\<close>

lemma of_char_to_lower:
  "(of_char ch :: nat) \<le> 90 \<Longrightarrow> (of_char (to_lower ch) :: nat) = of_char ch + 32"
  by (simp add: to_lower_def)

text \<open>
  Claim C9. For a letter \<open>A\<close> to \<open>Z\<close>, \<^verbatim>\<open>process_morsecode\<close> does with the upper-case
  letter exactly what it does with the lower-case one: both select the same index of the
  table, so results and states (the queue and the pulses among them) are equal.
\<close>

theorem upper_case_like_lower_case:
  assumes "of_char CHR ''A'' \<le> (of_char ch :: nat)" and "(of_char ch :: nat) \<le> of_char CHR ''Z''"
  shows "process_morsecode ch is_not_first_char s =
      process_morsecode (to_lower ch) is_not_first_char s \<and>
    of_char CHR ''a'' \<le> (of_char (to_lower ch) :: nat) \<and>
    (of_char (to_lower ch) :: nat) \<le> of_char CHR ''z'' \<and>
    letter_to_morsecode_bits_map ! (of_char (to_lower ch) - of_char CHR ''a'') =
      letter_to_morsecode_bits_map ! (of_char ch - of_char CHR ''A'') \<and>
    map to_lower ''ABCDEFGHIJKLMNOPQRSTUVWXYZ'' = ''abcdefghijklmnopqrstuvwxyz''"
proof -
  from assms have upper: "65 \<le> (of_char ch :: nat)" "(of_char ch :: nat) \<le> 90"
    by simp_all
  then have lower: "(of_char (to_lower ch) :: nat) = of_char ch + 32"
    by (simp add: of_char_to_lower)
  from upper lower have range: "of_char CHR ''a'' \<le> (of_char (to_lower ch) :: nat)"
    "(of_char (to_lower ch) :: nat) \<le> of_char CHR ''z''"
    by simp_all
  from upper lower
  have idx: "(of_char (to_lower ch) :: nat) - of_char CHR ''a'' = of_char ch - of_char CHR ''A''"
    by simp
  from upper have not_lower: "\<not> (of_char CHR ''a'' \<le> (of_char ch :: nat))"
    by simp
  have "process_morsecode ch is_not_first_char s =
      process_letter (of_char ch - of_char CHR ''A'') is_not_first_char s"
    using assms not_lower by (simp add: process_morsecode_def)
  moreover have "process_morsecode (to_lower ch) is_not_first_char s =
      process_letter (of_char (to_lower ch) - of_char CHR ''a'') is_not_first_char s"
    using range by (simp add: process_morsecode_def)
  moreover have "map to_lower ''ABCDEFGHIJKLMNOPQRSTUVWXYZ'' = ''abcdefghijklmnopqrstuvwxyz''"
    by code_simp
  ultimately show ?thesis
    using range idx by simp
qed

theorem upper_case_like_lower_case_witness:
  "of_char CHR ''A'' \<le> (of_char CHR ''R'' :: nat) \<and>
   (of_char CHR ''R'' :: nat) \<le> of_char CHR ''Z'' \<and>
   to_lower CHR ''R'' = CHR ''r'' \<and>
   process_morsecode CHR ''R'' True loaded = process_morsecode CHR ''r'' True loaded"
proof -
  have low: "of_char CHR ''A'' \<le> (of_char CHR ''R'' :: nat)"
    by simp
  have high: "(of_char CHR ''R'' :: nat) \<le> of_char CHR ''Z''"
    by simp
  have r: "to_lower CHR ''R'' = CHR ''r''"
    by code_simp
  from upper_case_like_lower_case [OF low high, of True loaded]
  have "process_morsecode CHR ''R'' True loaded =
      process_morsecode (to_lower CHR ''R'') True loaded"
    by blast
  with low high r show ?thesis
    by simp
qed

subsection \<open>Reading\<close>

lemma my_read_acquired:
  assumes "fst (queue_lock s) = 0"
  shows "my_read count 0 s =
    (Inr (min count (length (if flashed_codes_queue s = [] then []
                             else kfifo_put (flashed_codes_queue s) NEWLINE))),
     take count (if flashed_codes_queue s = [] then []
                 else kfifo_put (flashed_codes_queue s) NEWLINE),
     (snd (queue_lock s))\<lparr>flashed_codes_queue :=
        drop count (if flashed_codes_queue s = [] then []
                    else kfifo_put (flashed_codes_queue s) NEWLINE)\<rparr>)"
proof (cases "queue_lock s")
  case (Pair r s1)
  with assms have r: "r = 0" by simp
  from Pair have q: "flashed_codes_queue s1 = flashed_codes_queue s"
    using queue_lock_fields(1) [of s] by simp
  show ?thesis
    using Pair r q
    by (simp add: my_read_def kfifo_is_empty_def kfifo_to_user_def put_symbol_def
        queue_unlock_def Let_def min_def)
qed

text \<open>
  Claim C10, amended. When the queue holds its full capacity of 32768 symbols and
  \<^verbatim>\<open>my_read\<close> is called (the mutex acquired, the destination writable), the newline is not
  inserted: the bytes copied are the first \<open>count\<close> symbols of the queue as it was, the
  rest stays queued, and the batch holds a newline only if the queue already held one.
\<close>

theorem read_full_queue_puts_no_newline:
  assumes "length (flashed_codes_queue s) = QUEUE_SIZE" and "fst (queue_lock s) = 0"
  shows "my_read count 0 s =
      (Inr (min count QUEUE_SIZE), take count (flashed_codes_queue s),
       (snd (queue_lock s))\<lparr>flashed_codes_queue := drop count (flashed_codes_queue s)\<rparr>) \<and>
    (0 < count \<longrightarrow> take count (flashed_codes_queue s) \<noteq> []) \<and>
    (NEWLINE \<notin> set (flashed_codes_queue s) \<longrightarrow>
       NEWLINE \<notin> set (take count (flashed_codes_queue s)))"
proof -
  from assms(1) have "flashed_codes_queue s \<noteq> []"
    by (auto simp: QUEUE_SIZE_def)
  moreover from assms(1) have "kfifo_put (flashed_codes_queue s) NEWLINE = flashed_codes_queue s"
    by (simp add: kfifo_put_def kfifo_is_full_def)
  ultimately show ?thesis
    using my_read_acquired [OF assms(2), of count] assms(1)
    by (auto dest: in_set_takeD)
qed

theorem read_full_queue_puts_no_newline_witness:
  "length (flashed_codes_queue full_queue) = QUEUE_SIZE \<and> fst (queue_lock full_queue) = 0 \<and>
   my_read 5 0 full_queue =
     (Inr 5, ''.....'', full_queue\<lparr>flashed_codes_queue := replicate 32763 CHR ''.''\<rparr>) \<and>
   NEWLINE \<notin> set (flashed_codes_queue full_queue)"
proof -
  have len: "length (flashed_codes_queue full_queue) = QUEUE_SIZE"
    by (simp add: full_queue_def)
  have lock: "queue_lock full_queue = (0, full_queue)"
    by (simp add: full_queue_def loaded_state queue_lock_def)
  then have acq: "fst (queue_lock full_queue) = 0"
    by simp
  have "replicate 5 CHR ''.'' = ''.....''"
    by (simp add: numeral_eq_Suc)
  then have five: "take 5 (flashed_codes_queue full_queue) = ''.....''"
    by (simp add: full_queue_def QUEUE_SIZE_def)
  have rest: "drop 5 (flashed_codes_queue full_queue) = replicate 32763 CHR ''.''"
    by (simp add: full_queue_def QUEUE_SIZE_def)
  have nl: "NEWLINE \<notin> set (flashed_codes_queue full_queue)"
    by (simp add: full_queue_def NEWLINE_def)
  from read_full_queue_puts_no_newline [OF len acq, of 5] len acq five rest nl lock
  show ?thesis
    by (simp add: QUEUE_SIZE_def)
qed

lemma queue_lock_acquired:
  "locks_succeed s \<Longrightarrow> fst (queue_lock s) = 0"
  "locks_succeed s \<Longrightarrow> locks_succeed (snd (queue_lock s))"
  by (simp_all add: queue_lock_succeeds)

lemma locks_succeed_queue_update [simp]:
  "locks_succeed (s\<lparr>flashed_codes_queue := q\<rparr>) = locks_succeed s"
  by (simp add: locks_succeed_def)

text \<open>
  Claim C5, as stated, fails on a full queue: the queue is not empty, the mutex is acquired,
  and the call copies all 32768 dots and no newline.
\<close>

theorem read_appends_newline_counterexample:
  "flashed_codes_queue full_queue \<noteq> [] \<and> fst (queue_lock full_queue) = 0 \<and>
   my_read 40000 0 full_queue =
     (Inr 32768, replicate 32768 CHR ''.'', full_queue\<lparr>flashed_codes_queue := []\<rparr>) \<and>
   NEWLINE \<notin> set (replicate 32768 CHR ''.'')"
proof -
  have lock: "queue_lock full_queue = (0, full_queue)"
    by (simp add: full_queue_def loaded_state queue_lock_def)
  have put: "kfifo_put (flashed_codes_queue full_queue) NEWLINE = replicate 32768 CHR ''.''"
    by (simp add: full_queue_def kfifo_put_def kfifo_is_full_def QUEUE_SIZE_def)
  have ne: "flashed_codes_queue full_queue \<noteq> []"
    by (simp add: full_queue_def QUEUE_SIZE_def)
  from lock have "fst (queue_lock full_queue) = 0"
    by simp
  from my_read_acquired [OF this, of 40000] lock put ne show ?thesis
    by (simp add: NEWLINE_def)
qed

text \<open>
  Claim C5, amended. When \<^verbatim>\<open>my_read\<close> is called with the mutex acquired and a writable
  destination, and the queue is not empty and holds fewer than 32768 symbols, one newline
  is put at the end of the queue before the copy, the first \<open>count\<close> bytes of the queue
  are copied out and leave the queue, and the call returns the number of bytes copied.
  When the queue is empty the call returns 0 at once: it copies nothing, does not sleep and
  queues no newline.
\<close>

theorem read_appends_newline:
  assumes "fst (queue_lock s) = 0"
  shows "(flashed_codes_queue s \<noteq> [] \<and> length (flashed_codes_queue s) < QUEUE_SIZE \<longrightarrow>
      my_read count 0 s =
        (Inr (length (take count (flashed_codes_queue s @ [NEWLINE]))),
         take count (flashed_codes_queue s @ [NEWLINE]),
         (snd (queue_lock s))\<lparr>flashed_codes_queue :=
            drop count (flashed_codes_queue s @ [NEWLINE])\<rparr>)) \<and>
    (flashed_codes_queue s = [] \<longrightarrow> my_read count 0 s = (Inr 0, [], snd (queue_lock s)))"
proof (intro conjI impI)
  assume "flashed_codes_queue s \<noteq> [] \<and> length (flashed_codes_queue s) < QUEUE_SIZE"
  then show "my_read count 0 s =
        (Inr (length (take count (flashed_codes_queue s @ [NEWLINE]))),
         take count (flashed_codes_queue s @ [NEWLINE]),
         (snd (queue_lock s))\<lparr>flashed_codes_queue :=
            drop count (flashed_codes_queue s @ [NEWLINE])\<rparr>)"
    using my_read_acquired [OF assms, of count]
    by (simp add: kfifo_put_def kfifo_is_full_def)
next
  assume empty: "flashed_codes_queue s = []"
  have "(snd (queue_lock s))\<lparr>flashed_codes_queue := flashed_codes_queue (snd (queue_lock s))\<rparr>
      = snd (queue_lock s)"
    by simp
  with empty have "(snd (queue_lock s))\<lparr>flashed_codes_queue := []\<rparr> = snd (queue_lock s)"
    by simp
  with empty show "my_read count 0 s = (Inr 0, [], snd (queue_lock s))"
    using my_read_acquired [OF assms, of count] by simp
qed

theorem read_appends_newline_witness:
  "fst (queue_lock four_dots) = 0 \<and> flashed_codes_queue four_dots \<noteq> [] \<and>
   length (flashed_codes_queue four_dots) < QUEUE_SIZE \<and>
   my_read 100 0 four_dots =
     (Inr 5, ''....'' @ [NEWLINE], four_dots\<lparr>flashed_codes_queue := []\<rparr>) \<and>
   fst (queue_lock loaded) = 0 \<and> flashed_codes_queue loaded = [] \<and>
   my_read 100 0 loaded = (Inr 0, [], loaded)"
proof -
  have lock4: "queue_lock four_dots = (0, four_dots)"
    by (simp add: four_dots_def loaded_state queue_lock_def)
  have lock0: "queue_lock loaded = (0, loaded)"
    by (simp add: loaded_state queue_lock_def)
  have q4: "flashed_codes_queue four_dots = ''....''"
    by (simp add: four_dots_def)
  have q0: "flashed_codes_queue loaded = []"
    by (simp add: loaded_state)
  have a4: "fst (queue_lock four_dots) = 0" using lock4 by simp
  have a0: "fst (queue_lock loaded) = 0" using lock0 by simp
  from read_appends_newline [OF a4, of 100] read_appends_newline [OF a0, of 100]
    lock4 lock0 q4 q0
  show ?thesis
    by (simp add: QUEUE_SIZE_def)
qed




subsection \<open>Writing\<close>

lemma skip_leading_no_letter:
  assumes "\<forall>c \<in> set cs. \<not> is_letter c"
  shows "i \<le> length cs \<Longrightarrow> skip_leading (map Some cs) i = Inr (length cs)"
proof (induction "length cs - i" arbitrary: i)
  case 0
  then have "i = length cs" by simp
  then show ?case by simp
next
  case (Suc n)
  then have less: "i < length cs" by simp
  with assms have "\<not> is_letter (cs ! i)" by simp
  moreover from Suc less have "skip_leading (map Some cs) (i + 1) = Inr (length cs)"
    by simp
  ultimately show ?case
    using less by (subst skip_leading.simps) simp
qed

lemma write_loop_at_end:
  "length buff \<le> i \<Longrightarrow> write_loop buff i first s = (Inr (), s)"
  by (subst write_loop.simps) simp

text \<open>
  Claim C8. For a buffer without any ASCII letter (the empty buffer, spaces, other bytes),
  \<^verbatim>\<open>my_write\<close> returns \<open>count\<close> and leaves the state untouched: nothing is queued.
  On a queue that was empty, a following \<^verbatim>\<open>my_read\<close> returns 0 and copies no byte.
\<close>

theorem write_without_letters:
  assumes "\<forall>c \<in> set cs. \<not> is_letter c"
  shows "my_write (map Some cs) s = (Inr (length cs), s) \<and>
    (flashed_codes_queue s = [] \<and> fst (queue_lock s) = 0 \<longrightarrow>
       fst (my_read count 0 (snd (my_write (map Some cs) s))) = Inr 0 \<and>
       fst (snd (my_read count 0 (snd (my_write (map Some cs) s)))) = [])"
proof -
  have w: "my_write (map Some cs) s = (Inr (length cs), s)"
    using skip_leading_no_letter [OF assms, of 0]
    by (simp add: my_write_def write_loop_at_end)
  show ?thesis
    unfolding w using my_read_acquired [of s count] by simp
qed

theorem write_without_letters_witness:
  "\<not> is_letter CHR '' '' \<and> \<not> is_letter CHR ''1'' \<and> \<not> is_letter CHR ''#'' \<and>
   my_write (map Some '' 1 #  '') loaded = (Inr 6, loaded) \<and>
   flashed_codes_queue loaded = [] \<and> fst (queue_lock loaded) = 0 \<and>
   fst (my_read 100 0 (snd (my_write (map Some '' 1 #  '') loaded))) = Inr 0"
proof -
  have a: "\<forall>c \<in> set '' 1 #  ''. \<not> is_letter c"
    by (simp add: is_letter_def)
  have q: "flashed_codes_queue loaded = []"
    by (simp add: loaded_state)
  have l: "fst (queue_lock loaded) = 0"
    by (simp add: loaded_state queue_lock_def)
  have n: "length '' 1 #  '' = 6"
    by simp
  have "my_write (map Some '' 1 #  '') loaded = (Inr (length '' 1 #  ''), loaded)"
    using write_without_letters [OF a, of loaded 100] by blast
  then have w: "my_write (map Some '' 1 #  '') loaded = (Inr 6, loaded)"
    unfolding n .
  have "fst (my_read 100 0 (snd (my_write (map Some '' 1 #  '') loaded))) = Inr 0"
    using write_without_letters [OF a, of loaded 100] q l by blast
  moreover have "\<not> is_letter CHR '' '' \<and> \<not> is_letter CHR ''1'' \<and> \<not> is_letter CHR ''#''"
    by (simp add: is_letter_def)
  ultimately show ?thesis
    using w q l by blast
qed

subsection \<open>Letters, spaces and the main loop when every lock is acquired\<close>

lemma is_letter_not_space: "is_letter c \<Longrightarrow> c \<noteq> CHR '' ''"
  by (auto simp: is_letter_def)

lemma process_letter_succeeds:
  assumes "locks_succeed s"
  shows "\<exists>s'. process_letter i first s = (Inr (), s') \<and> locks_succeed s' \<and>
    flashed_codes_queue s' =
      enqueue_all (flashed_codes_queue s)
        ((if first then '' '' else []) @
         decoded (bits_msb_first (letter_to_morsecode_bits_map ! i)) 0)"
proof (cases first)
  case False
  from flash_morsecode_succeeds [OF assms, of "letter_to_morsecode_bits_map ! i"]
  show ?thesis
    using False by (auto simp: process_letter_def)
next
  case True
  let ?s2 = "msleep ((INTER_LETTER_DOTTIMES - 1) * dottime (snd (queue_lock s)))
    (queue_unlock (put_symbol SEPARATOR_SYMBOL (snd (queue_lock s))))"
  have ok2: "locks_succeed ?s2"
    using assms by (simp add: queue_lock_acquired)
  have q2: "flashed_codes_queue ?s2 = kfifo_put (flashed_codes_queue s) CHR '' ''"
    by (simp add: SEPARATOR_SYMBOL_def)
  from flash_morsecode_succeeds [OF ok2, of "letter_to_morsecode_bits_map ! i"]
  obtain s' where "flash_morsecode (letter_to_morsecode_bits_map ! i) ?s2 = (Inr (), s')"
    and "locks_succeed s'"
    and "flashed_codes_queue s' = enqueue_all (flashed_codes_queue ?s2)
      (decoded (bits_msb_first (letter_to_morsecode_bits_map ! i)) 0)"
    by blast
  then show ?thesis
    using True assms q2
    by (cases "queue_lock s") (auto simp: process_letter_def queue_lock_succeeds)
qed

lemma table_decoded:
  "map (\<lambda>m. decoded (bits_msb_first m) 0) letter_to_morsecode_bits_map = canonical_morse"
  by (simp add: letter_to_morsecode_bits_map_def canonical_morse_def bits_msb_first_def
      decoded_def run_symbol_def DOT_SYMBOL_def DASH_SYMBOL_def)

lemma table_length: "length letter_to_morsecode_bits_map = 26"
  by (simp add: letter_to_morsecode_bits_map_def)

lemma table_entry_decoded:
  assumes "i < 26"
  shows "decoded (bits_msb_first (letter_to_morsecode_bits_map ! i)) 0 = canonical_morse ! i"
proof -
  have "map (\<lambda>m. decoded (bits_msb_first m) 0) letter_to_morsecode_bits_map ! i =
      decoded (bits_msb_first (letter_to_morsecode_bits_map ! i)) 0"
    using assms by (simp add: table_length)
  then show ?thesis
    by (simp add: table_decoded)
qed

lemma process_morsecode_letter:
  assumes "locks_succeed s" and "is_letter ch"
  shows "\<exists>s'. process_morsecode ch first s = (Inr (), s') \<and> locks_succeed s' \<and>
    flashed_codes_queue s' =
      enqueue_all (flashed_codes_queue s) ((if first then '' '' else []) @ letter_code ch)"
proof -
  have idx: "letter_index ch < 26"
    using assms(2) by (auto simp: is_letter_def letter_index_def)
  have "process_morsecode ch first s = process_letter (letter_index ch) first s"
    using assms(2) by (auto simp: process_morsecode_def is_letter_def letter_index_def)
  with process_letter_succeeds [OF assms(1), of "letter_index ch" first]
  show ?thesis
    by (simp add: table_entry_decoded [OF idx] letter_code_def)
qed

lemma process_morsecode_space:
  assumes "locks_succeed s"
  shows "\<exists>s'. process_morsecode CHR '' '' first s = (Inr (), s') \<and> locks_succeed s' \<and>
    flashed_codes_queue s' = enqueue_all (flashed_codes_queue s) ''  ''"
  using assms
  by (simp add: process_morsecode_def queue_lock_succeeds SEPARATOR_SYMBOL_def)

lemma write_loop_letter:
  assumes "i < length buff" and "buff ! i = Some ch" and "is_letter ch"
    and "process_morsecode ch first s = (Inr (), s1)"
  shows "write_loop buff i first s = write_loop buff (i + 1) True s1"
  using assms
  by (subst write_loop.simps)
    (simp add: peek_ahead_def is_morsecode_char_def is_letter_not_space)

lemma peek_loop_next_letter:
  assumes "i + 1 < length buff" and "buff ! (i + 1) = Some d" and "is_letter d"
  shows "peek_loop buff i = Inr (i + 1)"
  using assms by (subst peek_loop.simps) (simp add: is_letter_not_space)

lemma write_loop_space:
  assumes "i + 1 < length buff" and "buff ! i = Some CHR '' ''"
    and "buff ! (i + 1) = Some d" and "is_letter d"
    and "process_morsecode CHR '' '' first s = (Inr (), s1)"
  shows "write_loop buff i first s = write_loop buff (i + 1) True s1"
  using assms peek_loop_next_letter [OF assms(1,3,4)]
  by (subst write_loop.simps) (simp add: peek_ahead_def is_morsecode_char_def)

lemma write_loop_spaced_letters:
  "spaced_letters cs \<Longrightarrow> locks_succeed s \<Longrightarrow>
   \<exists>s'. write_loop (pre @ map Some cs) (length pre) first s = (Inr (), s') \<and>
     locks_succeed s' \<and>
     flashed_codes_queue s' = enqueue_all (flashed_codes_queue s) (queued_for first cs)"
proof (induction cs arbitrary: pre first s)
  case Nil
  then show ?case
    by (simp add: write_loop_at_end)
next
  case (Cons c cs)
  let ?buff = "pre @ map Some (c # cs)"
  have buff: "?buff = (pre @ [Some c]) @ map Some cs"
    by simp
  have here: "?buff ! length pre = Some c"
    by simp
  have in_range: "length pre < length ?buff"
    by simp
  from Cons.prems(1) have tail: "spaced_letters cs"
    by simp
  show ?case
  proof (cases "c = CHR '' ''")
    case True
    with Cons.prems(1) obtain d ds where cs: "cs = d # ds" and d: "is_letter d"
      by (auto split: list.splits)
    from process_morsecode_space [OF Cons.prems(2), of first]
    obtain s1 where step: "process_morsecode CHR '' '' first s = (Inr (), s1)"
      and ok1: "locks_succeed s1"
      and q1: "flashed_codes_queue s1 = enqueue_all (flashed_codes_queue s) ''  ''"
      by blast
    have next_one: "?buff ! (length pre + 1) = Some d"
      using cs by (simp add: nth_append)
    have room: "length pre + 1 < length ?buff"
      using cs by simp
    have "write_loop ?buff (length pre) first s = write_loop ?buff (length pre + 1) True s1"
      using write_loop_space [OF room _ next_one d step] here True by simp
    moreover from Cons.IH [OF tail ok1, of "pre @ [Some c]" True]
    obtain s' where "write_loop ((pre @ [Some c]) @ map Some cs) (length (pre @ [Some c])) True s1
        = (Inr (), s')"
      and "locks_succeed s'"
      and "flashed_codes_queue s' = enqueue_all (flashed_codes_queue s1) (queued_for True cs)"
      by blast
    ultimately show ?thesis
      using q1 True by (simp add: enqueue_all_append [symmetric] del: enqueue_all_Cons)
  next
    case False
    with Cons.prems(1) have letter: "is_letter c"
      by simp
    from process_morsecode_letter [OF Cons.prems(2) letter, of first]
    obtain s1 where step: "process_morsecode c first s = (Inr (), s1)"
      and ok1: "locks_succeed s1"
      and q1: "flashed_codes_queue s1 =
        enqueue_all (flashed_codes_queue s) ((if first then '' '' else []) @ letter_code c)"
      by blast
    have "write_loop ?buff (length pre) first s = write_loop ?buff (length pre + 1) True s1"
      using write_loop_letter [OF in_range here letter step] .
    moreover from Cons.IH [OF tail ok1, of "pre @ [Some c]" True]
    obtain s' where "write_loop ((pre @ [Some c]) @ map Some cs) (length (pre @ [Some c])) True s1
        = (Inr (), s')"
      and "locks_succeed s'"
      and "flashed_codes_queue s' = enqueue_all (flashed_codes_queue s1) (queued_for True cs)"
      by blast
    ultimately show ?thesis
      using q1 False
      by (simp add: enqueue_all_append [symmetric] del: enqueue_all_Cons)
  qed
qed

lemma skip_leading_letter:
  assumes "is_letter c"
  shows "skip_leading (map Some (c # cs)) 0 = Inr 0"
  using assms by (subst skip_leading.simps) (simp add: is_letter_not_space)

lemma my_write_spaced_letters:
  assumes "spaced_letters (c # cs)" and "is_letter c" and "locks_succeed s"
  shows "\<exists>s'. my_write (map Some (c # cs)) s = (Inr (length (c # cs)), s') \<and>
    locks_succeed s' \<and>
    flashed_codes_queue s' =
      enqueue_all (flashed_codes_queue s) (queued_for False (c # cs))"
proof -
  from write_loop_spaced_letters [OF assms(1,3), of "[]" False]
  obtain s' where "write_loop (map Some (c # cs)) 0 False s = (Inr (), s')"
    and "locks_succeed s'"
    and "flashed_codes_queue s' =
      enqueue_all (flashed_codes_queue s) (queued_for False (c # cs))"
    by auto
  then show ?thesis
    using skip_leading_letter [OF assms(2), of cs]
    by (simp add: my_write_def)
qed

subsection \<open>Texts of words\<close>

lemma append_single: "(@) [x] = (#) x"
  by (simp add: fun_eq_iff)

lemma join_with_Cons: "join_with sep (x # xs) = x @ concat (map ((@) sep) xs)"
  by (induction xs arbitrary: x) auto

lemma spaced_letters_append:
  "\<forall>c \<in> set w. is_letter c \<Longrightarrow> spaced_letters (w @ rest) = spaced_letters rest"
  by (induction w) (auto simp: is_letter_not_space)

lemma spaced_letters_words:
  "letter_words ws \<Longrightarrow> spaced_letters (concat (map ((#) CHR '' '') ws))"
proof (induction ws)
  case Nil
  then show ?case by simp
next
  case (Cons w ws)
  then obtain c w' where w: "w = c # w'" and c: "is_letter c"
    and w': "\<forall>c \<in> set w'. is_letter c" and ws: "letter_words ws"
    by (cases w) (auto simp: letter_words_def)
  from Cons.IH [OF ws] spaced_letters_append [OF w'] show ?case
    by (simp add: w c is_letter_not_space)
qed

lemma queued_for_letters:
  "\<forall>c \<in> set w. is_letter c \<Longrightarrow>
   queued_for True (w @ rest) =
     concat (map (\<lambda>c. '' '' @ letter_code c) w) @ queued_for True rest"
  by (induction w) (auto simp: is_letter_not_space)

lemma word_code_Cons:
  "word_code (c # w) = letter_code c @ concat (map (\<lambda>c. '' '' @ letter_code c) w)"
  by (simp add: word_code_def join_with_Cons comp_def)

lemma queued_for_words:
  "letter_words ws \<Longrightarrow>
   queued_for True (concat (map ((#) CHR '' '') ws)) =
     concat (map (\<lambda>w. ''   '' @ word_code w) ws)"
proof (induction ws)
  case Nil
  then show ?case by simp
next
  case (Cons w ws)
  then obtain c w' where w: "w = c # w'" and c: "is_letter c"
    and w': "\<forall>c \<in> set w'. is_letter c" and ws: "letter_words ws"
    by (cases w) (auto simp: letter_words_def)
  from Cons.IH [OF ws] queued_for_letters [OF w', of "concat (map ((#) CHR '' '') ws)"]
  show ?case
    by (simp add: w c is_letter_not_space word_code_Cons)
qed

lemma text_written:
  assumes "letter_words (w # ws)"
  shows "queued_for False (join_with '' '' (w # ws)) = text_code (w # ws)"
    and "spaced_letters (join_with '' '' (w # ws))"
    and "\<exists>c cs. join_with '' '' (w # ws) = c # cs \<and> is_letter c"
proof -
  from assms obtain c w' where w: "w = c # w'" and c: "is_letter c"
    and w': "\<forall>c \<in> set w'. is_letter c" and ws: "letter_words ws"
    by (cases w) (auto simp: letter_words_def)
  from queued_for_words [OF ws] queued_for_letters [OF w', of "concat (map ((#) CHR '' '') ws)"]
  show "queued_for False (join_with '' '' (w # ws)) = text_code (w # ws)"
    by (simp add: w c is_letter_not_space word_code_Cons join_with_Cons text_code_def comp_def
        append_single)
  from spaced_letters_words [OF ws] spaced_letters_append [OF w']
  show "spaced_letters (join_with '' '' (w # ws))"
    by (simp add: w c is_letter_not_space join_with_Cons append_single)
  show "\<exists>c cs. join_with '' '' (w # ws) = c # cs \<and> is_letter c"
    by (simp add: w c join_with_Cons)
qed

lemma my_write_text:
  assumes "ws \<noteq> []" and "letter_words ws" and "locks_succeed s"
  shows "\<exists>s'. my_write (map Some (join_with '' '' ws)) s =
      (Inr (length (join_with '' '' ws)), s') \<and>
    locks_succeed s' \<and>
    flashed_codes_queue s' = enqueue_all (flashed_codes_queue s) (text_code ws)"
proof -
  from assms(1) obtain w ws' where ws: "ws = w # ws'"
    by (cases ws) auto
  from text_written(3) [of w ws'] assms(2) ws
  obtain c cs where j: "join_with '' '' ws = c # cs" and c: "is_letter c"
    by auto
  from text_written(2) [of w ws'] assms(2) ws j have "spaced_letters (c # cs)"
    by simp
  from my_write_spaced_letters [OF this c assms(3)] text_written(1) [of w ws'] assms(2) ws j
  show ?thesis
    by simp
qed


lemma letter_index_less: "is_letter c \<Longrightarrow> letter_index c < 26"
  by (auto simp: is_letter_def letter_index_def)

lemma canonical_morse_length: "length canonical_morse = 26"
  by (simp add: canonical_morse_def)

lemma letter_code_not_empty:
  assumes "is_letter c"
  shows "letter_code c \<noteq> []"
proof -
  have "list_all (\<lambda>x. x \<noteq> []) canonical_morse"
    by (simp add: canonical_morse_def)
  then show ?thesis
    using letter_index_less [OF assms]
    by (simp add: list_all_length canonical_morse_length letter_code_def)
qed

lemma text_code_not_empty:
  assumes "ws \<noteq> []" and "letter_words ws"
  shows "text_code ws \<noteq> []"
proof -
  from assms obtain c w ws' where "ws = (c # w) # ws'" and "is_letter c"
    by (cases ws; cases "hd ws") (auto simp: letter_words_def)
  then show ?thesis
    using letter_code_not_empty [of c]
    by (simp add: text_code_def join_with_Cons word_code_Cons)
qed

lemma my_read_all:
  assumes "locks_succeed s" and "flashed_codes_queue s \<noteq> []"
    and "length (flashed_codes_queue s) < QUEUE_SIZE"
    and "length (flashed_codes_queue s) < count"
  shows "my_read count 0 s =
    (Inr (length (flashed_codes_queue s) + 1), flashed_codes_queue s @ [NEWLINE],
     (snd (queue_lock s))\<lparr>flashed_codes_queue := []\<rparr>)"
  using my_read_acquired [OF queue_lock_acquired(1) [OF assms(1)], of count] assms(2-4)
  by (simp add: kfifo_put_def kfifo_is_full_def)

lemma split_words_not_empty: "split_words cs \<noteq> []"
  by (induction cs) (auto split: list.splits)

lemma join_split_words: "join_with '' '' (split_words cs) = cs"
proof (induction cs)
  case Nil
  show ?case by simp
next
  case (Cons c cs)
  obtain w ws where split: "split_words cs = w # ws"
    using split_words_not_empty [of cs] by (cases "split_words cs") auto
  with Cons.IH have "w @ concat (map ((@) '' '') ws) = cs"
    by (simp add: join_with_Cons)
  then show ?case
    using split by (simp add: join_with_Cons)
qed

lemma split_words_spaced:
  "spaced_letters cs \<Longrightarrow>
   (\<forall>c \<in> set (hd (split_words cs)). is_letter c) \<and>
   letter_words (tl (split_words cs)) \<and>
   (hd (split_words cs) = [] \<longleftrightarrow> cs = [] \<or> hd cs = CHR '' '')"
proof (induction cs)
  case Nil
  show ?case by (simp add: letter_words_def)
next
  case (Cons c cs)
  obtain w ws where split: "split_words cs = w # ws"
    using split_words_not_empty [of cs] by (cases "split_words cs") auto
  from Cons.prems have tail: "spaced_letters cs"
    by simp
  note ih = Cons.IH [OF tail, unfolded split, simplified]
  show ?case
  proof (cases "c = CHR '' ''")
    case True
    with Cons.prems obtain d ds where cs: "cs = d # ds" and d: "is_letter d"
      by (auto split: list.splits)
    with ih have "w \<noteq> []"
      by (auto simp: is_letter_not_space)
    with ih True split show ?thesis
      by (auto simp: letter_words_def)
  next
    case False
    with Cons.prems have "is_letter c"
      by simp
    with ih False split show ?thesis
      by auto
  qed
qed

lemma split_words_single_spaced:
  assumes "single_spaced cs"
  shows "letter_words (split_words cs)"
proof -
  obtain w ws where split: "split_words cs = w # ws"
    using split_words_not_empty [of cs] by (cases "split_words cs") auto
  from assms have "spaced_letters cs" and "cs \<noteq> []" and "hd cs \<noteq> CHR '' ''"
    by (auto simp: single_spaced_def is_letter_not_space)
  with split_words_spaced [of cs] split show ?thesis
    by (auto simp: letter_words_def)
qed

text \<open>
  Claim C1, amended. For a non-empty text of letters and single spaces, with no space in
  front, at the end or doubled, one \<^verbatim>\<open>my_write\<close> with every lock acquired returns
  \<open>count\<close> and puts into the queue the code of the text's words: the dots and dashes of a
  letter next to each other, one space between the letters of a word and three spaces at
  each word boundary. On a queue that was empty and with room for the whole code, one
  \<^verbatim>\<open>my_read\<close> with a large enough \<open>count\<close> then returns this code followed by one
  newline and leaves the queue empty.
\<close>

theorem write_then_read_text:
  assumes "single_spaced cs" and "locks_succeed s"
  shows "join_with '' '' (split_words cs) = cs \<and> letter_words (split_words cs) \<and>
    fst (my_write (map Some cs) s) = Inr (length cs) \<and>
    flashed_codes_queue (snd (my_write (map Some cs) s)) =
      enqueue_all (flashed_codes_queue s) (text_code (split_words cs)) \<and>
    (flashed_codes_queue s = [] \<and> length (text_code (split_words cs)) < QUEUE_SIZE \<and>
     length (text_code (split_words cs)) < count \<longrightarrow>
       flashed_codes_queue (snd (my_write (map Some cs) s)) = text_code (split_words cs) \<and>
       fst (my_read count 0 (snd (my_write (map Some cs) s))) =
         Inr (length (text_code (split_words cs)) + 1) \<and>
       fst (snd (my_read count 0 (snd (my_write (map Some cs) s)))) =
         text_code (split_words cs) @ [NEWLINE] \<and>
       flashed_codes_queue (snd (snd (my_read count 0 (snd (my_write (map Some cs) s))))) = [])"
proof -
  let ?ws = "split_words cs"
  have joined: "join_with '' '' ?ws = cs"
    by (rule join_split_words)
  have words: "letter_words ?ws"
    by (rule split_words_single_spaced [OF assms(1)])
  from my_write_text [OF split_words_not_empty words assms(2)]
  obtain s' where w: "my_write (map Some cs) s = (Inr (length cs), s')"
    and ok: "locks_succeed s'"
    and q: "flashed_codes_queue s' = enqueue_all (flashed_codes_queue s) (text_code ?ws)"
    unfolding joined by blast
  have "my_read count 0 s' =
      (Inr (length (text_code ?ws) + 1), text_code ?ws @ [NEWLINE],
       (snd (queue_lock s'))\<lparr>flashed_codes_queue := []\<rparr>)"
    if "flashed_codes_queue s = []" and "length (text_code ?ws) < QUEUE_SIZE"
      and "length (text_code ?ws) < count"
  proof -
    from that(1,2) q have "flashed_codes_queue s' = text_code ?ws"
      by (simp add: enqueue_all_room)
    with my_read_all [OF ok, of count] text_code_not_empty [OF split_words_not_empty words]
      that(2,3)
    show ?thesis
      by simp
  qed
  with w q joined words show ?thesis
    by (auto simp: enqueue_all_room)
qed

lemma hi_there_written:
  "\<exists>s'. my_write (map Some ''hi there'') loaded = (Inr 8, s') \<and> locks_succeed s' \<and>
     flashed_codes_queue s' = ''.... ..   - .... . .-. .''"
proof -
  have words: "letter_words [''hi'', ''there'']"
    by (simp add: letter_words_def is_letter_def)
  have locks: "locks_succeed loaded"
    by (simp add: loaded_state locks_succeed_def)
  have code: "text_code [''hi'', ''there''] = ''.... ..   - .... . .-. .''"
    by code_simp
  have joined: "join_with '' '' [''hi'', ''there''] = ''hi there''"
    by simp
  have n: "length ''hi there'' = 8"
    by simp
  have empty: "flashed_codes_queue loaded = []"
    by (simp add: loaded_state)
  have "length ([] :: char list) + length ''.... ..   - .... . .-. .'' \<le> QUEUE_SIZE"
    by (simp add: QUEUE_SIZE_def)
  then have room: "enqueue_all [] ''.... ..   - .... . .-. .'' = [] @ ''.... ..   - .... . .-. .''"
    by (rule enqueue_all_room)
  from my_write_text [OF _ words locks]
  obtain s' where "my_write (map Some (join_with '' '' [''hi'', ''there''])) loaded =
      (Inr (length (join_with '' '' [''hi'', ''there''])), s')"
    and ok: "locks_succeed s'"
    and "flashed_codes_queue s' =
      enqueue_all (flashed_codes_queue loaded) (text_code [''hi'', ''there''])"
    by blast
  then have "my_write (map Some ''hi there'') loaded = (Inr 8, s')"
    and "flashed_codes_queue s' = ''.... ..   - .... . .-. .''"
    unfolding joined n code empty room by simp_all
  with ok show ?thesis
    by blast
qed

text \<open>
  Claim C1, as stated, fails for \<^verbatim>\<open>"hi there"\<close>: the dots of a letter are queued next
  to each other, and the word boundary is three spaces.
\<close>

theorem word_boundary_counterexample:
  "flashed_codes_queue (snd (my_write (map Some ''hi there'') loaded)) =
     ''.... ..   - .... . .-. .'' \<and>
   fst (snd (my_read 100 0 (snd (my_write (map Some ''hi there'') loaded)))) =
     ''.... ..   - .... . .-. .'' @ [NEWLINE] \<and>
   spec_text_code [''hi'', ''there''] = ''. . . . . .  - . . . . . . - . .'' \<and>
   fst (snd (my_read 100 0 (snd (my_write (map Some ''hi there'') loaded)))) \<noteq>
     spec_text_code [''hi'', ''there''] \<and>
   fst (snd (my_read 100 0 (snd (my_write (map Some ''hi there'') loaded)))) \<noteq>
     spec_text_code [''hi'', ''there''] @ [NEWLINE] \<and>
   take 2 (fst (snd (my_read 100 0 (snd (my_write (map Some ''hi there'') loaded))))) = ''..'' \<and>
   take 3 (drop 7 (fst (snd (my_read 100 0 (snd (my_write (map Some ''hi there'') loaded))))))
     = ''   ''"
proof -
  from hi_there_written
  obtain s' where w: "my_write (map Some ''hi there'') loaded = (Inr 8, s')"
    and ok: "locks_succeed s'"
    and q: "flashed_codes_queue s' = ''.... ..   - .... . .-. .''"
    by blast
  have r: "fst (snd (my_read 100 0 s')) = ''.... ..   - .... . .-. .'' @ [NEWLINE]"
    using my_read_all [OF ok, of 100] by (simp add: q QUEUE_SIZE_def)
  have spec: "spec_text_code [''hi'', ''there''] = ''. . . . . .  - . . . . . . - . .''"
    by code_simp
  show ?thesis
    unfolding w spec using q r by simp
qed

theorem write_then_read_text_witness:
  "single_spaced ''hi there'' \<and> locks_succeed loaded \<and>
   split_words ''hi there'' = [''hi'', ''there''] \<and>
   text_code (split_words ''hi there'') = ''.... ..   - .... . .-. .'' \<and>
   flashed_codes_queue loaded = [] \<and>
   length (text_code (split_words ''hi there'')) < QUEUE_SIZE \<and>
   length (text_code (split_words ''hi there'')) < 100 \<and>
   fst (snd (my_read 100 0 (snd (my_write (map Some ''hi there'') loaded)))) =
     text_code (split_words ''hi there'') @ [NEWLINE]"
proof -
  have input: "single_spaced ''hi there''"
    by (simp add: single_spaced_def is_letter_def)
  have locks: "locks_succeed loaded"
    by (simp add: loaded_state locks_succeed_def)
  have split: "split_words ''hi there'' = [''hi'', ''there'']"
    by simp
  have code: "text_code (split_words ''hi there'') = ''.... ..   - .... . .-. .''"
    unfolding split by code_simp
  have empty: "flashed_codes_queue loaded = []"
    by (simp add: loaded_state)
  have room: "length (text_code (split_words ''hi there'')) < QUEUE_SIZE"
    unfolding code by (simp add: QUEUE_SIZE_def)
  have large: "length (text_code (split_words ''hi there'')) < 100"
    unfolding code by simp
  from write_then_read_text [OF input locks, of 100] empty room large
  have "fst (snd (my_read 100 0 (snd (my_write (map Some ''hi there'') loaded)))) =
      text_code (split_words ''hi there'') @ [NEWLINE]"
    by blast
  with input locks split code empty room large show ?thesis
    by blast
qed

lemma sos_written:
  "\<exists>s'. my_write (map Some ''SOS'') loaded = (Inr 3, s') \<and> locks_succeed s' \<and>
     flashed_codes_queue s' = ''... --- ...''"
proof -
  have words: "letter_words [''SOS'']"
    by (simp add: letter_words_def is_letter_def)
  have locks: "locks_succeed loaded"
    by (simp add: loaded_state locks_succeed_def)
  have code: "text_code [''SOS''] = ''... --- ...''"
    by code_simp
  have joined: "join_with '' '' [''SOS''] = ''SOS''"
    by simp
  have n: "length ''SOS'' = 3"
    by simp
  have empty: "flashed_codes_queue loaded = []"
    by (simp add: loaded_state)
  have "length ([] :: char list) + length ''... --- ...'' \<le> QUEUE_SIZE"
    by (simp add: QUEUE_SIZE_def)
  then have room: "enqueue_all [] ''... --- ...'' = [] @ ''... --- ...''"
    by (rule enqueue_all_room)
  from my_write_text [OF _ words locks]
  obtain s' where "my_write (map Some (join_with '' '' [''SOS''])) loaded =
      (Inr (length (join_with '' '' [''SOS''])), s')"
    and ok: "locks_succeed s'"
    and "flashed_codes_queue s' = enqueue_all (flashed_codes_queue loaded) (text_code [''SOS''])"
    by blast
  then have "my_write (map Some ''SOS'') loaded = (Inr 3, s')"
    and "flashed_codes_queue s' = ''... --- ...''"
    unfolding joined n code empty room by simp_all
  with ok show ?thesis
    by blast
qed

text \<open>
  Claim C3, as stated, fails: neither the queue after the write nor the bytes read are
  \<^verbatim>\<open>". . . - - - . . ."\<close>.
\<close>

theorem sos_stream_counterexample:
  "flashed_codes_queue (snd (my_write (map Some ''SOS'') loaded)) \<noteq> ''. . . - - - . . .'' \<and>
   fst (snd (my_read 100 0 (snd (my_write (map Some ''SOS'') loaded)))) \<noteq>
     ''. . . - - - . . .''"
proof -
  from sos_written
  obtain s' where w: "my_write (map Some ''SOS'') loaded = (Inr 3, s')"
    and ok: "locks_succeed s'" and q: "flashed_codes_queue s' = ''... --- ...''"
    by blast
  have "fst (snd (my_read 100 0 s')) = ''... --- ...'' @ [NEWLINE]"
    using my_read_all [OF ok, of 100] by (simp add: q QUEUE_SIZE_def)
  then show ?thesis
    unfolding w using q by simp
qed

text \<open>
  Claim C3, amended. For \<^verbatim>\<open>"SOS"\<close> written by one \<^verbatim>\<open>my_write\<close> to the empty queue of
  the loaded driver, the queue holds \<^verbatim>\<open>"... --- ..."\<close>: the dots and dashes of a letter
  next to each other, one space between letters. A \<^verbatim>\<open>my_read\<close> returns these eleven
  symbols and one newline, twelve bytes.
\<close>

theorem sos_stream:
  "fst (my_write (map Some ''SOS'') loaded) = Inr 3 \<and>
   flashed_codes_queue (snd (my_write (map Some ''SOS'') loaded)) = ''... --- ...'' \<and>
   fst (my_read 100 0 (snd (my_write (map Some ''SOS'') loaded))) = Inr 12 \<and>
   fst (snd (my_read 100 0 (snd (my_write (map Some ''SOS'') loaded)))) =
     ''... --- ...'' @ [NEWLINE] \<and>
   flashed_codes_queue (snd (snd (my_read 100 0 (snd (my_write (map Some ''SOS'') loaded)))))
     = []"
proof -
  from sos_written
  obtain s' where w: "my_write (map Some ''SOS'') loaded = (Inr 3, s')"
    and ok: "locks_succeed s'" and q: "flashed_codes_queue s' = ''... --- ...''"
    by blast
  have "my_read 100 0 s' =
      (Inr (length ''... --- ...'' + 1), ''... --- ...'' @ [NEWLINE],
       (snd (queue_lock s'))\<lparr>flashed_codes_queue := []\<rparr>)"
    using my_read_all [OF ok, of 100] by (simp add: q QUEUE_SIZE_def)
  then show ?thesis
    unfolding w using q by simp
qed

subsection \<open>A full queue that holds a newline\<close>

lemma write_e_queue:
  assumes "locks_succeed s"
  shows "locks_succeed (write_e s)"
    and "flashed_codes_queue (write_e s) = enqueue_all (flashed_codes_queue s) ''.''"
proof -
  have words: "letter_words [''e'']"
    by (simp add: letter_words_def is_letter_def)
  have code: "text_code [''e''] = ''.''"
    by code_simp
  from my_write_text [OF _ words assms]
  obtain s' where "my_write (map Some (join_with '' '' [''e''])) s =
      (Inr (length (join_with '' '' [''e''])), s')"
    and "locks_succeed s'"
    and "flashed_codes_queue s' = enqueue_all (flashed_codes_queue s) (text_code [''e''])"
    by blast
  then show "locks_succeed (write_e s)"
    and "flashed_codes_queue (write_e s) = enqueue_all (flashed_codes_queue s) ''.''"
    unfolding code by (simp_all add: write_e_def)
qed

lemma write_e_repeated:
  "locks_succeed s \<Longrightarrow>
   locks_succeed ((write_e ^^ n) s) \<and>
   flashed_codes_queue ((write_e ^^ n) s) =
     enqueue_all (flashed_codes_queue s) (replicate n CHR ''.'')"
proof (induction n)
  case 0
  then show ?case by simp
next
  case (Suc n)
  then have ok: "locks_succeed ((write_e ^^ n) s)"
    and q: "flashed_codes_queue ((write_e ^^ n) s) =
      enqueue_all (flashed_codes_queue s) (replicate n CHR ''.'')"
    by simp_all
  have "replicate (Suc n) CHR ''.'' = replicate n CHR ''.'' @ ''.''"
    by (simp add: replicate_append_same)
  then have "enqueue_all (flashed_codes_queue s) (replicate (Suc n) CHR ''.'') =
      enqueue_all (enqueue_all (flashed_codes_queue s) (replicate n CHR ''.'')) ''.''"
    by (simp only: enqueue_all_append)
  with write_e_queue [OF ok] q show ?case
    by simp
qed

lemma stale_newline_full_queue:
  "locks_succeed stale_newline_full"
  "flashed_codes_queue stale_newline_full = CHR ''.'' # NEWLINE # replicate 32766 CHR ''.''"
proof -
  have locks: "locks_succeed loaded"
    by (simp add: loaded_state locks_succeed_def)
  have empty: "flashed_codes_queue loaded = []"
    by (simp add: loaded_state)
  note first = write_e_queue [OF locks]
  have q1: "flashed_codes_queue (write_e loaded) = ''.''"
    using first(2) empty by (simp add: kfifo_put_def kfifo_is_full_def QUEUE_SIZE_def)
  let ?s2 = "snd (snd (my_read 0 0 (write_e loaded)))"
  have read: "my_read 0 0 (write_e loaded) =
      (Inr 0, [], (snd (queue_lock (write_e loaded)))\<lparr>flashed_codes_queue := [CHR ''.'', NEWLINE]\<rparr>)"
    using my_read_acquired [OF queue_lock_acquired(1) [OF first(1)], of 0] q1
    by (simp add: kfifo_put_def kfifo_is_full_def QUEUE_SIZE_def)
  have ok2: "locks_succeed ?s2"
    unfolding read using queue_lock_acquired(2) [OF first(1)] by simp
  have q2: "flashed_codes_queue ?s2 = [CHR ''.'', NEWLINE]"
    unfolding read by simp
  note rep = write_e_repeated [OF ok2, of 32766]
  have "length [CHR ''.'', NEWLINE] + length (replicate 32766 CHR ''.'') \<le> QUEUE_SIZE"
    by (simp add: QUEUE_SIZE_def)
  then have "enqueue_all [CHR ''.'', NEWLINE] (replicate 32766 CHR ''.'') =
      [CHR ''.'', NEWLINE] @ replicate 32766 CHR ''.''"
    by (rule enqueue_all_room)
  with rep q2 show "locks_succeed stale_newline_full"
    and "flashed_codes_queue stale_newline_full =
      CHR ''.'' # NEWLINE # replicate 32766 CHR ''.''"
    unfolding stale_newline_full_def by simp_all
qed

text \<open>
  Claim C10, as stated, fails: a write of e, a read of no byte and 32766 writes of e fill the
  queue, the newline of that read among its symbols. The next \<^verbatim>\<open>my_read\<close> finds the
  queue full, puts no newline, and the batch it copies holds the old newline.
\<close>

theorem read_full_queue_counterexample:
  "length (flashed_codes_queue stale_newline_full) = QUEUE_SIZE \<and>
   fst (my_read 40000 0 stale_newline_full) = Inr 32768 \<and>
   fst (snd (my_read 40000 0 stale_newline_full)) =
     CHR ''.'' # NEWLINE # replicate 32766 CHR ''.'' \<and>
   NEWLINE \<in> set (fst (snd (my_read 40000 0 stale_newline_full)))"
proof -
  note q = stale_newline_full_queue(2)
  have len: "length (flashed_codes_queue stale_newline_full) = QUEUE_SIZE"
    unfolding q by (simp add: QUEUE_SIZE_def)
  have put: "kfifo_put (flashed_codes_queue stale_newline_full) NEWLINE =
      flashed_codes_queue stale_newline_full"
    using len by (simp add: kfifo_put_def kfifo_is_full_def)
  have ne: "flashed_codes_queue stale_newline_full \<noteq> []"
    unfolding q by simp
  have all: "take 40000 (flashed_codes_queue stale_newline_full) =
      flashed_codes_queue stale_newline_full"
    using len by (simp add: QUEUE_SIZE_def)
  have "my_read 40000 0 stale_newline_full =
      (Inr (min 40000 (length (flashed_codes_queue stale_newline_full))),
       take 40000 (flashed_codes_queue stale_newline_full),
       (snd (queue_lock stale_newline_full))\<lparr>flashed_codes_queue :=
          drop 40000 (flashed_codes_queue stale_newline_full)\<rparr>)"
    using my_read_acquired [OF queue_lock_acquired(1) [OF stale_newline_full_queue(1)], of 40000]
      put ne
    by simp
  then have "fst (my_read 40000 0 stale_newline_full) = Inr 32768"
    and "fst (snd (my_read 40000 0 stale_newline_full)) = flashed_codes_queue stale_newline_full"
    unfolding all len by (simp_all add: QUEUE_SIZE_def)
  then show ?thesis
    using len unfolding q by simp
qed

subsection \<open>The patterns of the table\<close>

lemma table_runs:
  "map (\<lambda>m. ones_runs (bits_msb_first m)) letter_to_morsecode_bits_map =
    [[1, 3], [3, 1, 1, 1], [3, 1, 3, 1], [3, 1, 1], [1], [1, 1, 3, 1],
     [3, 3, 1], [1, 1, 1, 1], [1, 1], [1, 3, 3, 3], [3, 1, 3], [1, 3, 1, 1],
     [3, 3], [3, 1], [3, 3, 3], [1, 3, 3, 1], [3, 3, 1, 3], [1, 3, 1],
     [1, 1, 1], [3], [1, 1, 3], [1, 1, 1, 3], [1, 3, 3], [3, 1, 1, 3],
     [3, 1, 3, 3], [3, 3, 1, 1]]"
  by (simp add: letter_to_morsecode_bits_map_def bits_msb_first_def ones_runs_def)

lemma table_entry_runs:
  assumes "i < 26"
  shows "list_all (\<lambda>r. r = 1 \<or> r = 3) (ones_runs (bits_msb_first (letter_to_morsecode_bits_map ! i)))"
    and "length (canonical_morse ! i) =
      length (ones_runs (bits_msb_first (letter_to_morsecode_bits_map ! i)))"
proof -
  let ?runs = "map (\<lambda>m. ones_runs (bits_msb_first m)) letter_to_morsecode_bits_map"
  have nth: "?runs ! i = ones_runs (bits_msb_first (letter_to_morsecode_bits_map ! i))"
    using assms by (simp add: table_length)
  have "list_all (list_all (\<lambda>r. r = 1 \<or> r = 3)) ?runs"
    unfolding table_runs by simp
  then have "list_all (\<lambda>r. r = 1 \<or> r = 3) (?runs ! i)"
    using assms by (simp add: list_all_length table_length)
  then show "list_all (\<lambda>r. r = 1 \<or> r = 3)
      (ones_runs (bits_msb_first (letter_to_morsecode_bits_map ! i)))"
    by (simp only: nth)
  have "map length canonical_morse = map length ?runs"
    unfolding table_runs by (simp add: canonical_morse_def)
  then have "map length canonical_morse ! i = map length ?runs ! i"
    by simp
  then have "length (canonical_morse ! i) = length (?runs ! i)"
    using assms by (simp add: table_length canonical_morse_length)
  then show "length (canonical_morse ! i) =
      length (ones_runs (bits_msb_first (letter_to_morsecode_bits_map ! i)))"
    by (simp only: nth)
qed

text \<open>
  Claim C2. For every letter A to Z (index \<open>i\<close> of the table), \<^verbatim>\<open>flash_morsecode\<close> on
  the letter's pattern, with every lock acquired, puts into the queue exactly the letter's
  Morse code: one symbol for each maximal run of ones of the pattern read from the most
  significant bit, a dot for a run of one and a dash for a run of three, and every run of
  a pattern of the table has length one or three. The pattern of R is \<^verbatim>\<open>0xBA00\<close>, its
  runs are 1, 3, 1 and its code is dot, dash, dot.
\<close>

theorem flash_letter_pattern:
  assumes "i < 26" and "locks_succeed s"
  shows "fst (flash_morsecode (letter_to_morsecode_bits_map ! i) s) = Inr () \<and>
    flashed_codes_queue (snd (flash_morsecode (letter_to_morsecode_bits_map ! i) s)) =
      enqueue_all (flashed_codes_queue s) (canonical_morse ! i) \<and>
    (length (flashed_codes_queue s) + length (canonical_morse ! i) \<le> QUEUE_SIZE \<longrightarrow>
       flashed_codes_queue (snd (flash_morsecode (letter_to_morsecode_bits_map ! i) s)) =
         flashed_codes_queue s @ canonical_morse ! i) \<and>
    canonical_morse ! i =
      concat (map run_symbol (ones_runs (bits_msb_first (letter_to_morsecode_bits_map ! i)))) \<and>
    length (canonical_morse ! i) =
      length (ones_runs (bits_msb_first (letter_to_morsecode_bits_map ! i))) \<and>
    (\<forall>r \<in> set (ones_runs (bits_msb_first (letter_to_morsecode_bits_map ! i))). r = 1 \<or> r = 3) \<and>
    letter_to_morsecode_bits_map ! 17 = 0xBA00 \<and>
    ones_runs (bits_msb_first 0xBA00) = [1, 3, 1] \<and>
    canonical_morse ! 17 = ''.-.''"
proof -
  let ?m = "letter_to_morsecode_bits_map ! i"
  from flash_morsecode_succeeds [OF assms(2), of ?m]
  obtain s' where run: "flash_morsecode ?m s = (Inr (), s')"
    and q: "flashed_codes_queue s' =
      enqueue_all (flashed_codes_queue s) (decoded (bits_msb_first ?m) 0)"
    by blast
  have code: "decoded (bits_msb_first ?m) 0 = canonical_morse ! i"
    by (rule table_entry_decoded [OF assms(1)])
  have runs: "canonical_morse ! i = concat (map run_symbol (ones_runs (bits_msb_first ?m)))"
    using code by (simp add: decoded_def ones_runs_def)
  have r: "letter_to_morsecode_bits_map ! 17 = 0xBA00"
    by (simp add: letter_to_morsecode_bits_map_def)
  have r_runs: "ones_runs (bits_msb_first 0xBA00) = [1, 3, 1]"
    by (simp add: bits_msb_first_def ones_runs_def)
  have r_code: "canonical_morse ! 17 = ''.-.''"
    by (simp add: canonical_morse_def)
  from table_entry_runs [OF assms(1)]
  have each: "\<forall>r \<in> set (ones_runs (bits_msb_first ?m)). r = 1 \<or> r = 3"
    and len: "length (canonical_morse ! i) = length (ones_runs (bits_msb_first ?m))"
    by (simp_all add: list_all_iff)
  have "fst (flash_morsecode ?m s) = Inr ()"
    using run by simp
  moreover have "flashed_codes_queue (snd (flash_morsecode ?m s)) =
      enqueue_all (flashed_codes_queue s) (canonical_morse ! i)"
    using run q code by simp
  moreover have "length (flashed_codes_queue s) + length (canonical_morse ! i) \<le> QUEUE_SIZE \<longrightarrow>
      flashed_codes_queue (snd (flash_morsecode ?m s)) = flashed_codes_queue s @ canonical_morse ! i"
    using run q code by (simp add: enqueue_all_room)
  ultimately show ?thesis
    using runs len each r r_runs r_code by blast
qed

theorem flash_letter_pattern_witness:
  "(17 :: nat) < 26 \<and> locks_succeed loaded \<and>
   length (flashed_codes_queue loaded) + length (canonical_morse ! 17) \<le> QUEUE_SIZE \<and>
   fst (flash_morsecode 0xBA00 loaded) = Inr () \<and>
   flashed_codes_queue (snd (flash_morsecode 0xBA00 loaded)) = ''.-.''"
proof -
  have i: "(17 :: nat) < 26"
    by simp
  have locks: "locks_succeed loaded"
    by (simp add: loaded_state locks_succeed_def)
  have r: "letter_to_morsecode_bits_map ! 17 = 0xBA00"
    by (simp add: letter_to_morsecode_bits_map_def)
  have r_code: "canonical_morse ! 17 = ''.-.''"
    by (simp add: canonical_morse_def)
  have empty: "flashed_codes_queue loaded = []"
    by (simp add: loaded_state)
  have room: "length (flashed_codes_queue loaded) + length (canonical_morse ! 17) \<le> QUEUE_SIZE"
    unfolding r_code empty by (simp add: QUEUE_SIZE_def)
  from flash_letter_pattern [OF i locks] room
  have "fst (flash_morsecode (letter_to_morsecode_bits_map ! 17) loaded) = Inr ()"
    and "flashed_codes_queue (snd (flash_morsecode (letter_to_morsecode_bits_map ! 17) loaded)) =
      flashed_codes_queue loaded @ canonical_morse ! 17"
    by blast+
  then have "fst (flash_morsecode 0xBA00 loaded) = Inr ()"
    and "flashed_codes_queue (snd (flash_morsecode 0xBA00 loaded)) = ''.-.''"
    unfolding r r_code empty by simp_all
  with i locks room show ?thesis
    by blast
qed

subsection \<open>Interrupted acquisitions of the lock\<close>

lemma acquired_until_refl [simp]: "acquired_until l l"
  by (cases l) auto

lemma acquired_until_trans:
  "acquired_until l l' \<Longrightarrow> acquired_until l' l'' \<Longrightarrow> acquired_until l l''"
  by (induction l) auto

lemma acquired_then_interrupted:
  "acquired_until l l' \<Longrightarrow> interrupted_at l' l'' \<Longrightarrow> interrupted_at l l''"
  by (induction l) auto

lemma locks_used_refl [simp]: "locks_used False s s"
  by (simp add: locks_used_def)

lemma locks_used_step:
  "locks_used False s s1 \<Longrightarrow> locks_used failed s1 s2 \<Longrightarrow> locks_used failed s s2"
  by (auto simp: locks_used_def intro: acquired_until_trans acquired_then_interrupted)

lemma lock_outcomes_simps [simp]:
  "lock_outcomes (msleep d s) = lock_outcomes s"
  "lock_outcomes (led_trigger_event e s) = lock_outcomes s"
  "lock_outcomes (put_symbol c s) = lock_outcomes s"
  "lock_outcomes (queue_unlock s) = lock_outcomes s"
  by (simp_all add: msleep_def led_trigger_event_def put_symbol_def queue_unlock_def)

lemma locks_used_simps [simp]:
  "locks_used f s (msleep d s1) = locks_used f s s1"
  "locks_used f s (led_trigger_event e s1) = locks_used f s s1"
  "locks_used f s (put_symbol c s1) = locks_used f s s1"
  "locks_used f s (queue_unlock s1) = locks_used f s s1"
  "locks_used f (msleep d s) s1 = locks_used f s s1"
  "locks_used f (led_trigger_event e s) s1 = locks_used f s s1"
  by (simp_all add: locks_used_def)

lemma queue_lock_used: "queue_lock s = (r, s1) \<Longrightarrow> locks_used (r \<noteq> 0) s s1"
  by (auto simp: queue_lock_def locks_used_def split: list.splits)

lemma put_valid_used:
  "put_valid_morsecode_into_queue c s = (r, s1) \<Longrightarrow> locks_used (isl r) s s1"
  by (cases "queue_lock s")
    (auto simp: put_valid_morsecode_into_queue_def Let_def dest: queue_lock_used
      split: if_splits)

lemma flash_loop_used:
  "flash_loop m c s = (r, s') \<Longrightarrow> locks_used (isl r) s s'"
proof (induction m c s arbitrary: r s' rule: flash_loop.induct)
  case (1 m c s)
  show ?case
  proof (cases "m = 0")
    case True
    with "1.prems" show ?thesis
      by auto
  next
    case False
    note nonzero = False
    show ?thesis
    proof (cases "leftmost_bit m = 1")
      case True
      let ?s2 = "msleep (dottime s) (led_trigger_event LED_FULL s)"
      have "flash_loop m c s = flash_loop (push_bit 1 m) (c + 1) ?s2"
        using nonzero True by (subst flash_loop.simps) simp
      with "1.prems" have "flash_loop (push_bit 1 m) (c + 1) ?s2 = (r, s')"
        by simp
      from "1.IH"(1) [OF nonzero True this] show ?thesis
        by simp
    next
      case False
      obtain r1 s1 where put: "put_valid_morsecode_into_queue c s = (r1, s1)"
        by (cases "put_valid_morsecode_into_queue c s")
      note used1 = put_valid_used [OF put]
      show ?thesis
      proof (cases r1)
        case (Inl e)
        have "flash_loop m c s = (Inl EFAULT, s1)"
          using nonzero False put Inl by (subst flash_loop.simps) simp
        with "1.prems" used1 Inl show ?thesis
          by auto
      next
        case (Inr u)
        let ?s2 = "msleep (dottime s1) (led_trigger_event LED_OFF s1)"
        have "flash_loop m c s = flash_loop (push_bit 1 m) 0 ?s2"
          using nonzero False put Inr by (subst flash_loop.simps) simp
        with "1.prems" have run: "flash_loop (push_bit 1 m) 0 ?s2 = (r, s')"
          by simp
        have "(Inr u, s1) = put_valid_morsecode_into_queue c s"
          using put Inr by simp
        from "1.IH"(2) [OF nonzero False this refl run] have "locks_used (isl r) s1 s'"
          by simp
        with used1 Inr show ?thesis
          by (auto intro: locks_used_step)
      qed
    qed
  qed
qed

lemma flash_morsecode_used:
  assumes "flash_morsecode m s = (r, s')"
  shows "locks_used (isl r) s s'"
proof -
  obtain r1 s1 where loop: "flash_loop m 0 s = (r1, s1)"
    by (cases "flash_loop m 0 s")
  note used1 = flash_loop_used [OF loop]
  show ?thesis
  proof (cases r1)
    case (Inl e)
    with assms loop used1 show ?thesis
      by (auto simp: flash_morsecode_def)
  next
    case (Inr c)
    obtain r2 s2 where put: "put_valid_morsecode_into_queue c s1 = (r2, s2)"
      by (cases "put_valid_morsecode_into_queue c s1")
    from put_valid_used [OF put] used1 Inr have "locks_used (isl r2) s s2"
      by (auto intro: locks_used_step)
    with assms loop Inr put show ?thesis
      by (cases r2) (auto simp: flash_morsecode_def)
  qed
qed

lemma process_letter_used:
  assumes "process_letter i first s = (r, s')"
  shows "locks_used (isl r) s s'"
proof -
  let ?sep = "if first then
      (case queue_lock s of (r, s1) \<Rightarrow>
         if r \<noteq> 0 then (Inl EFAULT, s1)
         else (Inr (),
               msleep ((INTER_LETTER_DOTTIMES - 1) * dottime s1)
                 (queue_unlock (put_symbol SEPARATOR_SYMBOL s1))))
    else (Inr (), s)"
  obtain r1 s1 where sep: "?sep = (r1, s1)"
    by (cases ?sep)
  have used1: "locks_used (isl r1) s s1"
    using sep by (cases "queue_lock s") (auto dest: queue_lock_used split: if_splits)
  show ?thesis
  proof (cases r1)
    case (Inl e)
    with assms sep used1 show ?thesis
      by (auto simp: process_letter_def)
  next
    case (Inr u)
    obtain r2 s2 where flash: "flash_morsecode (letter_to_morsecode_bits_map ! i) s1 = (r2, s2)"
      by (cases "flash_morsecode (letter_to_morsecode_bits_map ! i) s1")
    from flash_morsecode_used [OF flash] used1 Inr have "locks_used (isl r2) s s2"
      by (auto intro: locks_used_step)
    with assms sep Inr flash show ?thesis
      by (cases r2) (auto simp: process_letter_def)
  qed
qed

lemma process_morsecode_used:
  assumes "process_morsecode ch first s = (r, s')"
  shows "locks_used (isl r) s s'"
  using assms
  by (cases "queue_lock s")
    (auto simp: process_morsecode_def dest: process_letter_used queue_lock_used
      split: if_splits)

lemma readable_nth: "None \<notin> set buff \<Longrightarrow> i < length buff \<Longrightarrow> \<exists>ch. buff ! i = Some ch"
  by (cases "buff ! i") (auto simp: in_set_conv_nth)

lemma peek_loop_readable:
  "None \<notin> set buff \<Longrightarrow> \<exists>p. peek_loop buff i = Inr p"
proof (induction buff i rule: peek_loop.induct)
  case (1 buff i)
  show ?case
  proof (cases "i + 1 < length buff")
    case False
    then show ?thesis
      by (subst peek_loop.simps) simp
  next
    case True
    with readable_nth [OF "1.prems"] obtain ch where ch: "buff ! (i + 1) = Some ch"
      by blast
    show ?thesis
    proof (cases "ch \<noteq> CHR '' '' \<and> is_letter ch")
      case True
      with \<open>i + 1 < length buff\<close> ch show ?thesis
        by (subst peek_loop.simps) simp
    next
      case False
      from "1.IH" [OF \<open>i + 1 < length buff\<close> ch False "1.prems"]
      obtain p where "peek_loop buff (i + 1) = Inr p"
        by blast
      with \<open>i + 1 < length buff\<close> ch False show ?thesis
        by (subst peek_loop.simps) simp
    qed
  qed
qed

lemma peek_ahead_readable:
  assumes "None \<notin> set buff"
  shows "\<exists>b. peek_ahead buff i ch = Inr b"
  using peek_loop_readable [OF assms, of i] by (auto simp: peek_ahead_def)

lemma skip_leading_readable:
  "None \<notin> set buff \<Longrightarrow> \<exists>j. skip_leading buff i = Inr j"
proof (induction buff i rule: skip_leading.induct)
  case (1 buff i)
  show ?case
  proof (cases "i < length buff")
    case False
    then show ?thesis
      by (subst skip_leading.simps) simp
  next
    case True
    with readable_nth [OF "1.prems"] obtain ch where ch: "buff ! i = Some ch"
      by blast
    show ?thesis
    proof (cases "ch \<noteq> CHR '' '' \<and> is_letter ch")
      case True
      with \<open>i < length buff\<close> ch show ?thesis
        by (subst skip_leading.simps) simp
    next
      case False
      from "1.IH" [OF \<open>i < length buff\<close> ch False "1.prems"]
      obtain j where "skip_leading buff (i + 1) = Inr j"
        by blast
      with \<open>i < length buff\<close> ch False show ?thesis
        by (subst skip_leading.simps) simp
    qed
  qed
qed

lemma write_loop_used:
  "None \<notin> set buff \<Longrightarrow> write_loop buff i first s = (r, s') \<Longrightarrow> locks_used (isl r) s s'"
proof (induction buff i first s arbitrary: r s' rule: write_loop.induct)
  case (1 buff i first s)
  note readable = "1.prems"(1) and run = "1.prems"(2)
  show ?case
  proof (cases "i < length buff")
    case False
    with run show ?thesis
      by (auto simp: write_loop_at_end)
  next
    case True
    note in_range = True
    with readable_nth [OF readable] obtain ch where ch: "buff ! i = Some ch"
      by blast
    from peek_ahead_readable [OF readable] obtain b where peek: "peek_ahead buff i ch = Inr b"
      by blast
    show ?thesis
    proof (cases b)
      case None
      have "write_loop buff i first s = (Inr (), s)"
        using in_range ch peek None by (subst write_loop.simps) simp
      with run show ?thesis
        by auto
    next
      case (Some i')
      show ?thesis
      proof (cases "is_morsecode_char ch")
        case False
        have "write_loop buff i first s = write_loop buff (i' + 1) first s"
          using in_range ch peek Some False by (subst write_loop.simps) simp
        with run have "write_loop buff (i' + 1) first s = (r, s')"
          by simp
        from "1.IH"(2) [OF in_range ch peek Some False readable this] show ?thesis .
      next
        case True
        obtain r1 s1 where step: "process_morsecode ch first s = (r1, s1)"
          by (cases "process_morsecode ch first s")
        note used1 = process_morsecode_used [OF step]
        show ?thesis
        proof (cases r1)
          case (Inl e)
          have "write_loop buff i first s = (Inl EFAULT, s1)"
            using in_range ch peek Some True step Inl by (subst write_loop.simps) simp
          with run used1 Inl show ?thesis
            by auto
        next
          case (Inr u)
          have "write_loop buff i first s = write_loop buff (i' + 1) True s1"
            using in_range ch peek Some True step Inr by (subst write_loop.simps) simp
          with run have next_run: "write_loop buff (i' + 1) True s1 = (r, s')"
            by simp
          have "(r1, s1) = process_morsecode ch first s"
            using step by simp
          from "1.IH"(1) [OF in_range ch peek Some True this Inr readable next_run]
          have "locks_used (isl r) s1 s'" .
          with used1 Inr show ?thesis
            by (auto intro: locks_used_step)
        qed
      qed
    qed
  qed
qed

lemma my_write_used:
  assumes "None \<notin> set buff" and "my_write buff s = (r, s')"
  shows "locks_used (isl r) s s'"
proof -
  from skip_leading_readable [OF assms(1)] obtain j where skip: "skip_leading buff 0 = Inr j"
    by blast
  obtain r1 s1 where loop: "write_loop buff j False s = (r1, s1)"
    by (cases "write_loop buff j False s")
  from write_loop_used [OF assms(1) loop] assms(2) skip loop show ?thesis
    by (cases r1) (auto simp: my_write_def)
qed

lemma my_read_used:
  assumes "my_read count 0 s = (r, bytes, s')"
  shows "locks_used (isl r) s s'"
  using assms
  by (cases "queue_lock s")
    (auto simp: my_read_def kfifo_to_user_def Let_def locks_used_def dest!: queue_lock_used
      split: if_splits)

lemma queue_lock_interrupted:
  "lock_outcomes s = False # rest \<Longrightarrow> queue_lock s = (- 4, s\<lparr>lock_outcomes := rest\<rparr>)"
  by (simp add: queue_lock_def)

lemma put_valid_interrupted:
  assumes "lock_outcomes s = False # rest" and "n = 1 \<or> n = 3"
  shows "put_valid_morsecode_into_queue n s = (Inl EFAULT, s\<lparr>lock_outcomes := rest\<rparr>)"
  using assms(2)
  by (auto simp: put_valid_morsecode_into_queue_def queue_lock_interrupted [OF assms(1)]
      ONES_IN_A_DOT_def ONES_IN_A_DASH_def)

lemma flash_loop_interrupted:
  assumes "lock_outcomes s = False # rest" and "n = 1 \<or> n = 3"
    and "m \<noteq> 0" and "leftmost_bit m \<noteq> 1"
  shows "flash_loop m n s = (Inl EFAULT, s\<lparr>lock_outcomes := rest\<rparr>)"
  using assms(3,4) put_valid_interrupted [OF assms(1,2)]
  by (subst flash_loop.simps) simp

lemma flash_morsecode_interrupted:
  "fst (flash_loop m 0 s0) = Inl e \<Longrightarrow>
   flash_morsecode m s0 = (Inl EFAULT, snd (flash_loop m 0 s0))"
  "flash_loop m 0 s0 = (Inr n, s) \<Longrightarrow> lock_outcomes s = False # rest \<Longrightarrow> n = 1 \<or> n = 3 \<Longrightarrow>
   flash_morsecode m s0 = (Inl EFAULT, s\<lparr>lock_outcomes := rest\<rparr>)"
proof -
  show "flash_morsecode m s0 = (Inl EFAULT, snd (flash_loop m 0 s0))"
    if "fst (flash_loop m 0 s0) = Inl e"
    using that by (cases "flash_loop m 0 s0") (simp add: flash_morsecode_def)
  show "flash_morsecode m s0 = (Inl EFAULT, s\<lparr>lock_outcomes := rest\<rparr>)"
    if "flash_loop m 0 s0 = (Inr n, s)" and "lock_outcomes s = False # rest" and "n = 1 \<or> n = 3"
    using that(1) put_valid_interrupted [OF that(2,3)]
    by (simp add: flash_morsecode_def)
qed

lemma my_read_interrupted:
  "lock_outcomes s = False # rest \<Longrightarrow>
   my_read count uncopied s = (Inl EFAULT, [], s\<lparr>lock_outcomes := rest\<rparr>)"
  by (simp add: my_read_def queue_lock_interrupted)

lemma process_morsecode_interrupted:
  assumes "lock_outcomes s = False # rest"
  shows "process_morsecode CHR '' '' first s = (Inl EFAULT, s\<lparr>lock_outcomes := rest\<rparr>)"
    and "is_letter ch \<Longrightarrow>
      process_morsecode ch True s = (Inl EFAULT, s\<lparr>lock_outcomes := rest\<rparr>)"
  by (auto simp: process_morsecode_def process_letter_def is_letter_def
      queue_lock_interrupted [OF assms])

lemma write_loop_interrupted:
  assumes "i < length buff" and "buff ! i = Some ch" and "is_letter ch"
    and "process_morsecode ch first s = (Inl e, s1)"
  shows "write_loop buff i first s = (Inl EFAULT, s1)"
  using assms
  by (subst write_loop.simps)
    (simp add: peek_ahead_def is_morsecode_char_def is_letter_not_space)

lemma acquires_none [simp]: "acquires 0 s False s"
  by (simp add: acquires_def)

lemma acquires_then:
  "acquires a s False s1 \<Longrightarrow> acquires b s1 failed s2 \<Longrightarrow> acquires (a + b) s failed s2"
  by (auto simp: acquires_def take_add add.commute)

lemma acquires_failed:
  "acquires a s True s1 \<Longrightarrow> acquires (a + b) s True s2"
  by (auto simp: acquires_def take_add)

lemma acquires_simps [simp]:
  "acquires n s f (msleep d s1) = acquires n s f s1"
  "acquires n s f (led_trigger_event e s1) = acquires n s f s1"
  "acquires n s f (put_symbol c s1) = acquires n s f s1"
  "acquires n s f (queue_unlock s1) = acquires n s f s1"
  "acquires n (msleep d s) f s1 = acquires n s f s1"
  "acquires n (led_trigger_event e s) f s1 = acquires n s f s1"
  "acquires n s f (s1\<lparr>flashed_codes_queue := q\<rparr>) = acquires n s f s1"
  by (simp_all add: acquires_def)

lemma queue_lock_acquires: "queue_lock s = (r, s1) \<Longrightarrow> acquires 1 s (r \<noteq> 0) s1"
  by (cases "lock_outcomes s") (auto simp: queue_lock_def acquires_def split: if_splits)

lemma put_valid_acquires:
  "put_valid_morsecode_into_queue c s = (r, s1) \<Longrightarrow>
   acquires (length (run_symbol c)) s (isl r) s1"
  by (cases "queue_lock s")
    (auto simp: put_valid_morsecode_into_queue_def Let_def run_symbol_def
      ONES_IN_A_DOT_def ONES_IN_A_DASH_def dest: queue_lock_acquires split: if_splits)

lemma flash_loop_acquires:
  "flash_loop m c s = (r, s1) \<Longrightarrow>
   (\<forall>e. r = Inl e \<longrightarrow> acquires (length (decoded (bits_msb_first m) c)) s True s1) \<and>
   (\<forall>c' r2 s2. r = Inr c' \<longrightarrow> put_valid_morsecode_into_queue c' s1 = (r2, s2) \<longrightarrow>
      acquires (length (decoded (bits_msb_first m) c)) s (isl r2) s2)"
proof (induction m c s arbitrary: r s1 rule: flash_loop.induct)
  case (1 m c s)
  show ?case
  proof (cases "m = 0")
    case True
    with "1.prems" have "r = Inr c" and "s1 = s"
      by auto
    with True show ?thesis
      by (auto simp: decoded_zero dest: put_valid_acquires)
  next
    case False
    note nonzero = False
    show ?thesis
    proof (cases "leftmost_bit m = 1")
      case True
      let ?s2 = "msleep (dottime s) (led_trigger_event LED_FULL s)"
      have "flash_loop m c s = flash_loop (push_bit 1 m) (c + 1) ?s2"
        using nonzero True by (subst flash_loop.simps) simp
      with "1.prems" have "flash_loop (push_bit 1 m) (c + 1) ?s2 = (r, s1)"
        by simp
      from "1.IH"(1) [OF nonzero True this] show ?thesis
        by (simp add: decoded_shift_one [OF True, of c])
    next
      case False
      let ?a = "length (run_symbol c)"
      let ?b = "length (decoded (bits_msb_first (push_bit 1 m)) 0)"
      have total: "length (decoded (bits_msb_first m) c) = ?a + ?b"
        by (simp add: decoded_shift_zero [OF False, of c])
      obtain r1 s1' where put: "put_valid_morsecode_into_queue c s = (r1, s1')"
        by (cases "put_valid_morsecode_into_queue c s")
      note used = put_valid_acquires [OF put]
      show ?thesis
      proof (cases r1)
        case (Inl e)
        have "flash_loop m c s = (Inl EFAULT, s1')"
          using nonzero False put Inl by (subst flash_loop.simps) simp
        with "1.prems" have "r = Inl EFAULT" and "s1 = s1'"
          by auto
        with used Inl show ?thesis
          unfolding total by (auto intro: acquires_failed)
      next
        case (Inr u)
        let ?s2 = "msleep (dottime s1') (led_trigger_event LED_OFF s1')"
        have "flash_loop m c s = flash_loop (push_bit 1 m) 0 ?s2"
          using nonzero False put Inr by (subst flash_loop.simps) simp
        with "1.prems" have run: "flash_loop (push_bit 1 m) 0 ?s2 = (r, s1)"
          by simp
        have "(Inr u, s1') = put_valid_morsecode_into_queue c s"
          using put Inr by simp
        note ih = "1.IH"(2) [OF nonzero False this refl run]
        from used Inr have first: "acquires ?a s False s1'"
          by simp
        show ?thesis
          unfolding total using ih by (auto intro: acquires_then [OF first])
      qed
    qed
  qed
qed

lemma flash_morsecode_acquires:
  assumes "flash_morsecode m s = (r, s')"
  shows "acquires (length (decoded (bits_msb_first m) 0)) s (isl r) s'"
proof -
  obtain r1 s1 where loop: "flash_loop m 0 s = (r1, s1)"
    by (cases "flash_loop m 0 s")
  note used = flash_loop_acquires [OF loop]
  show ?thesis
  proof (cases r1)
    case (Inl e)
    with assms loop used show ?thesis
      by (auto simp: flash_morsecode_def)
  next
    case (Inr c)
    obtain r2 s2 where put: "put_valid_morsecode_into_queue c s1 = (r2, s2)"
      by (cases "put_valid_morsecode_into_queue c s1")
    with used Inr have "acquires (length (decoded (bits_msb_first m) 0)) s (isl r2) s2"
      by blast
    with assms loop Inr put show ?thesis
      by (cases r2) (auto simp: flash_morsecode_def acquires_def)
  qed
qed

lemma process_letter_acquires:
  assumes "process_letter i first s = (r, s')"
  shows "acquires ((if first then 1 else 0) +
      length (decoded (bits_msb_first (letter_to_morsecode_bits_map ! i)) 0)) s (isl r) s'"
proof -
  let ?sep = "if first then
      (case queue_lock s of (r, s1) \<Rightarrow>
         if r \<noteq> 0 then (Inl EFAULT, s1)
         else (Inr (),
               msleep ((INTER_LETTER_DOTTIMES - 1) * dottime s1)
                 (queue_unlock (put_symbol SEPARATOR_SYMBOL s1))))
    else (Inr (), s)"
  obtain r1 s1 where sep: "?sep = (r1, s1)"
    by (cases ?sep)
  have used1: "acquires (if first then 1 else 0) s (isl r1) s1"
    using sep by (cases "queue_lock s") (auto dest: queue_lock_acquires split: if_splits)
  show ?thesis
  proof (cases r1)
    case (Inl e)
    with used1 have "acquires (if first then 1 else 0) s True s1"
      by simp
    then have "acquires ((if first then 1 else 0) +
        length (decoded (bits_msb_first (letter_to_morsecode_bits_map ! i)) 0)) s True s1"
      by (rule acquires_failed)
    with assms sep Inl show ?thesis
      by (auto simp: process_letter_def)
  next
    case (Inr u)
    obtain r2 s2 where flash: "flash_morsecode (letter_to_morsecode_bits_map ! i) s1 = (r2, s2)"
      by (cases "flash_morsecode (letter_to_morsecode_bits_map ! i) s1")
    from used1 Inr have "acquires (if first then 1 else 0) s False s1"
      by simp
    from acquires_then [OF this flash_morsecode_acquires [OF flash]] assms sep Inr flash
    show ?thesis
      by (cases r2) (auto simp: process_letter_def acquires_def)
  qed
qed

lemma process_morsecode_acquires:
  assumes "process_morsecode ch first s = (r, s')"
  shows "is_letter ch \<Longrightarrow>
      acquires ((if first then 1 else 0) + length (letter_code ch)) s (isl r) s'"
    and "ch = CHR '' '' \<Longrightarrow> acquires 1 s (isl r) s'"
proof -
  show "acquires ((if first then 1 else 0) + length (letter_code ch)) s (isl r) s'"
    if "is_letter ch"
  proof -
    have "process_morsecode ch first s = process_letter (letter_index ch) first s"
      using that by (auto simp: process_morsecode_def is_letter_def letter_index_def)
    with assms process_letter_acquires [of "letter_index ch" first s r s'] show ?thesis
      by (simp add: table_entry_decoded [OF letter_index_less [OF that]] letter_code_def)
  qed
  show "acquires 1 s (isl r) s'" if "ch = CHR '' ''"
    using assms that
    by (cases "queue_lock s")
      (auto simp: process_morsecode_def dest: queue_lock_acquires split: if_splits)
qed

lemma write_loop_step:
  assumes "i < length buff" and "buff ! i = Some ch"
    and "peek_ahead buff i ch = Inr (Some j)" and "is_morsecode_char ch"
  shows "write_loop buff i first s =
    (case process_morsecode ch first s of
       (Inl e, s1) \<Rightarrow> (Inl EFAULT, s1)
     | (Inr u, s1) \<Rightarrow> write_loop buff (j + 1) True s1)"
  using assms by (subst write_loop.simps) simp

lemma peek_ahead_spaced:
  assumes "spaced_letters (c # cs)"
  shows "peek_ahead (pre @ map Some (c # cs)) (length pre) c = Inr (Some (length pre))"
proof (cases "c = CHR '' ''")
  case False
  then show ?thesis
    by (simp add: peek_ahead_def)
next
  case True
  with assms obtain d ds where cs: "cs = d # ds" and d: "is_letter d"
    by (auto split: list.splits)
  have "peek_loop (pre @ map Some (c # cs)) (length pre) = Inr (length pre + 1)"
    by (rule peek_loop_next_letter [where d = d]) (simp_all add: cs d nth_append)
  with True show ?thesis
    by (simp add: peek_ahead_def cs)
qed

lemma write_loop_acquires:
  "spaced_letters cs \<Longrightarrow>
   write_loop (pre @ map Some cs) (length pre) first s = (r, s') \<Longrightarrow>
   acquires (locks_needed first cs) s (isl r) s'"
proof (induction cs arbitrary: pre first s)
  case Nil
  then show ?case
    by (auto simp: write_loop_at_end)
next
  case (Cons c cs)
  let ?buff = "pre @ map Some (c # cs)"
  let ?a = "if c = CHR '' '' then 1 else (if first then 1 else 0) + length (letter_code c)"
  have buff: "?buff = (pre @ [Some c]) @ map Some cs"
    by simp
  from Cons.prems(1) have tail: "spaced_letters cs"
    by simp
  from Cons.prems(1) have char: "c = CHR '' '' \<or> is_letter c"
    by (auto split: if_splits)
  then have morse: "is_morsecode_char c"
    by (auto simp: is_morsecode_char_def)
  obtain r1 s1 where step: "process_morsecode c first s = (r1, s1)"
    by (cases "process_morsecode c first s")
  have used: "acquires ?a s (isl r1) s1"
    using process_morsecode_acquires [OF step] char
    by (auto simp: is_letter_not_space)
  have unfold: "write_loop ?buff (length pre) first s =
      (case process_morsecode c first s of
         (Inl e, s1) \<Rightarrow> (Inl EFAULT, s1)
       | (Inr u, s1) \<Rightarrow> write_loop ?buff (length pre + 1) True s1)"
    by (rule write_loop_step [OF _ _ peek_ahead_spaced [OF Cons.prems(1)] morse]) simp_all
  show ?case
  proof (cases r1)
    case (Inl e)
    with unfold step Cons.prems(2) have "r = Inl EFAULT" and "s' = s1"
      by auto
    moreover from used Inl have "acquires ?a s True s1"
      by simp
    then have "acquires (?a + locks_needed True cs) s True s1"
      by (rule acquires_failed)
    ultimately show ?thesis
      by simp
  next
    case (Inr u)
    with unfold step Cons.prems(2)
    have "write_loop ((pre @ [Some c]) @ map Some cs) (length (pre @ [Some c])) True s1 = (r, s')"
      by simp
    from Cons.IH [OF tail this] have "acquires (locks_needed True cs) s1 (isl r) s'" .
    moreover from used Inr have "acquires ?a s False s1"
      by simp
    ultimately have "acquires (?a + locks_needed True cs) s (isl r) s'"
      by (rule acquires_then [rotated])
    then show ?thesis
      by simp
  qed
qed

lemma my_write_acquires:
  assumes "single_spaced cs" and "my_write (map Some cs) s = (r, s')"
  shows "acquires (locks_needed False cs) s (isl r) s'"
proof -
  from assms(1) obtain c cs' where cs: "cs = c # cs'" and c: "is_letter c"
    and spaced: "spaced_letters cs"
    by (cases cs) (auto simp: single_spaced_def)
  obtain r1 s1 where loop: "write_loop ([] @ map Some cs) (length ([] :: char option list)) False s
      = (r1, s1)"
    by (cases "write_loop ([] @ map Some cs) (length ([] :: char option list)) False s")
  from write_loop_acquires [OF spaced loop] assms(2) loop skip_leading_letter [OF c, of cs']
  show ?thesis
    by (cases r1) (auto simp: my_write_def cs acquires_def)
qed

lemma my_read_acquires:
  assumes "my_read count 0 s = (r, bytes, s')"
  shows "acquires 1 s (isl r) s'"
  using assms
  by (cases "queue_lock s")
    (auto simp: my_read_def kfifo_to_user_def Let_def dest!: queue_lock_acquires
      split: if_splits)

lemma errno_cases: "(r = Inl EFAULT) = isl r"
  by (cases r) (auto intro: errno.exhaust)

text \<open>
  Claim C7. Let a signal interrupt the next acquisition of the queue lock. Then the
  operation that makes this acquisition returns \<^verbatim>\<open>-EFAULT\<close> at once, and the state it
  leaves differs from the state at the acquisition only by the outcome consumed: the flush
  queues no symbol, \<^verbatim>\<open>flash_morsecode\<close> gives no further LED event and does not sleep
  again (in its loop and at its final flush alike), \<^verbatim>\<open>my_read\<close> copies nothing,
  \<^verbatim>\<open>process_morsecode\<close> queues no separator and flashes nothing, and the main loop of
  \<^verbatim>\<open>my_write\<close> stops, at the separator before a letter and at a word gap alike. The
  error goes up unchanged: from the flush to \<^verbatim>\<open>flash_morsecode\<close>, from there to
  \<^verbatim>\<open>process_morsecode\<close>, to the main loop and to \<^verbatim>\<open>my_write\<close>, each returning
  \<^verbatim>\<open>-EFAULT\<close> with the state it was handed. Whenever \<^verbatim>\<open>flash_morsecode\<close>,
  \<^verbatim>\<open>my_write\<close> (on a readable buffer) or \<^verbatim>\<open>my_read\<close> (to a writable destination)
  returns the error, the interrupted acquisition was the last acquisition made: nothing is
  retried; when \<^verbatim>\<open>my_write\<close> returns \<open>count\<close>, every acquisition it made was successful.
  And the error is returned exactly when an acquisition is interrupted:
  \<^verbatim>\<open>flash_morsecode\<close> fails if and only if one of the acquisitions of its symbols is
  interrupted, \<^verbatim>\<open>my_read\<close> if and only if its acquisition is, and \<^verbatim>\<open>my_write\<close> of a
  text of letters and single spaces if and only if one of the acquisitions the text needs
  (flushes, separators and word gaps) is interrupted; otherwise it returns \<open>count\<close> and
  has made exactly these acquisitions. On any buffer, a step of the main loop that is not
  interrupted hands the rest of the buffer to the loop again and returns what that returns,
  and \<^verbatim>\<open>my_write\<close> returns \<open>count\<close> only when the loop has ended without error.
\<close>

theorem lock_failure_aborts:
  assumes "lock_outcomes s = False # rest"
  shows "(n = 1 \<or> n = 3 \<longrightarrow>
      put_valid_morsecode_into_queue n s = (Inl EFAULT, s\<lparr>lock_outcomes := rest\<rparr>)) \<and>
    (n = 1 \<or> n = 3 \<longrightarrow> m \<noteq> 0 \<longrightarrow> leftmost_bit m \<noteq> 1 \<longrightarrow>
      flash_loop m n s = (Inl EFAULT, s\<lparr>lock_outcomes := rest\<rparr>)) \<and>
    (n = 1 \<or> n = 3 \<longrightarrow> flash_loop m 0 s0 = (Inr n, s) \<longrightarrow>
      flash_morsecode m s0 = (Inl EFAULT, s\<lparr>lock_outcomes := rest\<rparr>)) \<and>
    my_read count uncopied s = (Inl EFAULT, [], s\<lparr>lock_outcomes := rest\<rparr>) \<and>
    process_morsecode CHR '' '' first s = (Inl EFAULT, s\<lparr>lock_outcomes := rest\<rparr>) \<and>
    (is_letter ch \<longrightarrow>
      process_morsecode ch True s = (Inl EFAULT, s\<lparr>lock_outcomes := rest\<rparr>)) \<and>
    (is_letter ch \<longrightarrow> i < length buff \<longrightarrow> buff ! i = Some ch \<longrightarrow>
      write_loop buff i True s = (Inl EFAULT, s\<lparr>lock_outcomes := rest\<rparr>)) \<and>
    (i < length buff \<longrightarrow> buff ! i = Some CHR '' '' \<longrightarrow>
     peek_ahead buff i CHR '' '' = Inr (Some j) \<longrightarrow>
      write_loop buff i first s = (Inl EFAULT, s\<lparr>lock_outcomes := rest\<rparr>)) \<and>
    (fst (flash_loop m 0 s0) = Inl e \<longrightarrow>
      flash_morsecode m s0 = (Inl EFAULT, snd (flash_loop m 0 s0))) \<and>
    (is_letter ch \<longrightarrow> fst (flash_morsecode (letter_to_morsecode_bits_map ! letter_index ch) s0) = Inl e \<longrightarrow>
      process_morsecode ch False s0 =
        (Inl EFAULT, snd (flash_morsecode (letter_to_morsecode_bits_map ! letter_index ch) s0))) \<and>
    (is_morsecode_char ch \<longrightarrow> i < length buff \<longrightarrow> buff ! i = Some ch \<longrightarrow>
     peek_ahead buff i ch = Inr (Some j) \<longrightarrow> fst (process_morsecode ch first s0) = Inl e \<longrightarrow>
      write_loop buff i first s0 = (Inl EFAULT, snd (process_morsecode ch first s0))) \<and>
    (skip_leading buff 0 = Inr i \<longrightarrow> fst (write_loop buff i False s0) = Inl e \<longrightarrow>
      my_write buff s0 = (Inl EFAULT, snd (write_loop buff i False s0))) \<and>
    (fst (flash_morsecode m s0) = Inl e \<longrightarrow>
      interrupted_at (lock_outcomes s0) (lock_outcomes (snd (flash_morsecode m s0)))) \<and>
    (fst (my_write (map Some cs) s0) = Inl e \<longrightarrow>
      interrupted_at (lock_outcomes s0) (lock_outcomes (snd (my_write (map Some cs) s0)))) \<and>
    (fst (my_read count 0 s0) = Inl e \<longrightarrow>
      interrupted_at (lock_outcomes s0) (lock_outcomes (snd (snd (my_read count 0 s0))))) \<and>
    (fst (my_write (map Some cs) s0) = Inr k \<longrightarrow>
      acquired_until (lock_outcomes s0) (lock_outcomes (snd (my_write (map Some cs) s0)))) \<and>
    (fst (flash_morsecode m s0) = Inl EFAULT) =
      (\<not> list_all id (take (length (decoded (bits_msb_first m) 0)) (lock_outcomes s0))) \<and>
    (fst (my_read count 0 s0) = Inl EFAULT) = (\<not> list_all id (take 1 (lock_outcomes s0))) \<and>
    (single_spaced cs \<longrightarrow>
      (fst (my_write (map Some cs) s0) = Inl EFAULT) =
        (\<not> list_all id (take (locks_needed False cs) (lock_outcomes s0))) \<and>
      (fst (my_write (map Some cs) s0) = Inr (length cs)) =
        list_all id (take (locks_needed False cs) (lock_outcomes s0)) \<and>
      (list_all id (take (locks_needed False cs) (lock_outcomes s0)) \<longrightarrow>
        lock_outcomes (snd (my_write (map Some cs) s0)) =
          drop (locks_needed False cs) (lock_outcomes s0))) \<and>
    (is_morsecode_char ch \<longrightarrow> i < length buff \<longrightarrow> buff ! i = Some ch \<longrightarrow>
     peek_ahead buff i ch = Inr (Some j) \<longrightarrow> process_morsecode ch first s0 = (Inr u, s1) \<longrightarrow>
      write_loop buff i first s0 = write_loop buff (j + 1) True s1) \<and>
    (\<not> is_morsecode_char ch \<longrightarrow> i < length buff \<longrightarrow> buff ! i = Some ch \<longrightarrow>
      write_loop buff i first s0 = write_loop buff (i + 1) first s0) \<and>
    (skip_leading buff 0 = Inr i \<longrightarrow> write_loop buff i False s0 = (Inr u, s1) \<longrightarrow>
      my_write buff s0 = (Inr (length buff), s1)) \<and>
    (is_letter ch \<longrightarrow> queue_lock s0 = (0, s1) \<longrightarrow>
     fst (flash_morsecode (letter_to_morsecode_bits_map ! letter_index ch)
       (msleep ((INTER_LETTER_DOTTIMES - 1) * dottime s1)
         (queue_unlock (put_symbol SEPARATOR_SYMBOL s1)))) = Inl e \<longrightarrow>
      process_morsecode ch True s0 =
        (Inl EFAULT,
         snd (flash_morsecode (letter_to_morsecode_bits_map ! letter_index ch)
           (msleep ((INTER_LETTER_DOTTIMES - 1) * dottime s1)
             (queue_unlock (put_symbol SEPARATOR_SYMBOL s1))))))"
proof -
  have continues: "write_loop buff i first s0 = write_loop buff (j + 1) True s1"
    if "is_morsecode_char ch" and "i < length buff" and "buff ! i = Some ch"
      and "peek_ahead buff i ch = Inr (Some j)" and "process_morsecode ch first s0 = (Inr u, s1)"
    using write_loop_step [OF that(2,3,4,1), of first s0] that(5)
    by simp
  have skips: "write_loop buff i first s0 = write_loop buff (i + 1) first s0"
    if "\<not> is_morsecode_char ch" and "i < length buff" and "buff ! i = Some ch"
  proof -
    from that(1) have "ch \<noteq> CHR '' ''"
      by (auto simp: is_morsecode_char_def)
    with that show ?thesis
      by (subst write_loop.simps) (simp add: peek_ahead_def)
  qed
  have returns: "my_write buff s0 = (Inr (length buff), s1)"
    if "skip_leading buff 0 = Inr i" and "write_loop buff i False s0 = (Inr u, s1)"
    using that by (simp add: my_write_def)
  have after_separator: "process_morsecode ch True s0 =
      (Inl EFAULT,
       snd (flash_morsecode (letter_to_morsecode_bits_map ! letter_index ch)
         (msleep ((INTER_LETTER_DOTTIMES - 1) * dottime s1)
           (queue_unlock (put_symbol SEPARATOR_SYMBOL s1)))))"
    if "is_letter ch" and "queue_lock s0 = (0, s1)"
      and "fst (flash_morsecode (letter_to_morsecode_bits_map ! letter_index ch)
        (msleep ((INTER_LETTER_DOTTIMES - 1) * dottime s1)
          (queue_unlock (put_symbol SEPARATOR_SYMBOL s1)))) = Inl e"
  proof -
    have "process_morsecode ch True s0 = process_letter (letter_index ch) True s0"
      using that(1) by (auto simp: process_morsecode_def is_letter_def letter_index_def)
    with that(2,3) show ?thesis
      by (cases "flash_morsecode (letter_to_morsecode_bits_map ! letter_index ch)
          (msleep ((INTER_LETTER_DOTTIMES - 1) * dottime s1)
            (queue_unlock (put_symbol SEPARATOR_SYMBOL s1)))")
        (simp add: process_letter_def)
  qed
  have flash: "interrupted_at (lock_outcomes s0) (lock_outcomes (snd (flash_morsecode m s0)))"
    if "fst (flash_morsecode m s0) = Inl e"
    using that flash_morsecode_used [of m s0]
    by (cases "flash_morsecode m s0") (auto simp: locks_used_def)
  have readable: "None \<notin> set (map Some cs)"
    by auto
  have aborted_write:
    "interrupted_at (lock_outcomes s0) (lock_outcomes (snd (my_write (map Some cs) s0)))"
    if "fst (my_write (map Some cs) s0) = Inl e"
    using that my_write_used [OF readable, of s0]
    by (cases "my_write (map Some cs) s0") (auto simp: locks_used_def)
  have finished_write:
    "acquired_until (lock_outcomes s0) (lock_outcomes (snd (my_write (map Some cs) s0)))"
    if "fst (my_write (map Some cs) s0) = Inr k"
    using that my_write_used [OF readable, of s0]
    by (cases "my_write (map Some cs) s0") (auto simp: locks_used_def)
  have aborted_read:
    "interrupted_at (lock_outcomes s0) (lock_outcomes (snd (snd (my_read count 0 s0))))"
    if "fst (my_read count 0 s0) = Inl e"
    using that my_read_used [of count s0]
    by (cases "my_read count 0 s0") (auto simp: locks_used_def)
  have loop: "write_loop buff i True s = (Inl EFAULT, s\<lparr>lock_outcomes := rest\<rparr>)"
    if "is_letter ch" and "i < length buff" and "buff ! i = Some ch"
    using write_loop_interrupted [OF that(2,3,1) process_morsecode_interrupted(2) [OF assms that(1)]] .
  have gap: "write_loop buff i first s = (Inl EFAULT, s\<lparr>lock_outcomes := rest\<rparr>)"
    if "i < length buff" and "buff ! i = Some CHR '' ''"
      and "peek_ahead buff i CHR '' '' = Inr (Some j)"
    using write_loop_step [OF that, of first s] process_morsecode_interrupted(1) [OF assms, of first]
    by (simp add: is_morsecode_char_def)
  have letter: "process_morsecode ch False s0 =
      (Inl EFAULT, snd (flash_morsecode (letter_to_morsecode_bits_map ! letter_index ch) s0))"
    if "is_letter ch"
      and "fst (flash_morsecode (letter_to_morsecode_bits_map ! letter_index ch) s0) = Inl e"
  proof -
    have "process_morsecode ch False s0 = process_letter (letter_index ch) False s0"
      using that(1) by (auto simp: process_morsecode_def is_letter_def letter_index_def)
    with that(2) show ?thesis
      by (cases "flash_morsecode (letter_to_morsecode_bits_map ! letter_index ch) s0")
        (simp add: process_letter_def)
  qed
  have step: "write_loop buff i first s0 = (Inl EFAULT, snd (process_morsecode ch first s0))"
    if "is_morsecode_char ch" and "i < length buff" and "buff ! i = Some ch"
      and "peek_ahead buff i ch = Inr (Some j)" and "fst (process_morsecode ch first s0) = Inl e"
    using write_loop_step [OF that(2,3,4,1), of first s0] that(5)
    by (cases "process_morsecode ch first s0") simp
  have whole: "my_write buff s0 = (Inl EFAULT, snd (write_loop buff i False s0))"
    if "skip_leading buff 0 = Inr i" and "fst (write_loop buff i False s0) = Inl e"
    using that by (cases "write_loop buff i False s0") (simp add: my_write_def)
  have exact_flash: "(fst (flash_morsecode m s0) = Inl EFAULT) =
      (\<not> list_all id (take (length (decoded (bits_msb_first m) 0)) (lock_outcomes s0)))"
    using flash_morsecode_acquires [of m s0]
    by (cases "flash_morsecode m s0") (auto simp: acquires_def errno_cases)
  have exact_read: "(fst (my_read count 0 s0) = Inl EFAULT) =
      (\<not> list_all id (take 1 (lock_outcomes s0)))"
    using my_read_acquires [of count s0]
    by (cases "my_read count 0 s0") (auto simp: acquires_def errno_cases)
  have exact_write: "(fst (my_write (map Some cs) s0) = Inl EFAULT) =
        (\<not> list_all id (take (locks_needed False cs) (lock_outcomes s0))) \<and>
      (fst (my_write (map Some cs) s0) = Inr (length cs)) =
        list_all id (take (locks_needed False cs) (lock_outcomes s0)) \<and>
      (list_all id (take (locks_needed False cs) (lock_outcomes s0)) \<longrightarrow>
        lock_outcomes (snd (my_write (map Some cs) s0)) =
          drop (locks_needed False cs) (lock_outcomes s0))"
    if "single_spaced cs"
  proof (cases "my_write (map Some cs) s0")
    case (Pair r s')
    note used = my_write_acquires [OF that Pair]
    have "r = Inr (length cs)" if "\<not> isl r"
      using that Pair
      by (auto simp: my_write_def split: sum.splits prod.splits)
    with used Pair show ?thesis
      by (cases r) (auto simp: acquires_def errno_cases)
  qed
  show ?thesis
    using put_valid_interrupted [OF assms, of n] flash_loop_interrupted [OF assms, of n m]
      flash_morsecode_interrupted(2) [of m s0 n s rest, OF _ assms]
      flash_morsecode_interrupted(1) [of m s0 e]
      my_read_interrupted [OF assms, of count uncopied]
      process_morsecode_interrupted(1) [OF assms, of first]
      process_morsecode_interrupted(2) [OF assms, of ch]
      flash aborted_write aborted_read finished_write loop gap letter step whole
      exact_flash exact_read exact_write continues skips returns after_separator
    by blast
qed

theorem lock_failure_aborts_witness:
  "lock_outcomes signal_pending = False # [] \<and>
   put_valid_morsecode_into_queue 1 signal_pending = (Inl EFAULT, loaded) \<and>
   (0x4000 :: ushort) \<noteq> 0 \<and> leftmost_bit 0x4000 \<noteq> 1 \<and>
   flash_loop 0x4000 1 signal_pending = (Inl EFAULT, loaded) \<and>
   flash_loop 0x8000 0 signal_pending =
     (Inr 1, signal_pending\<lparr>events := [LED_FULL, Msleep 200]\<rparr>) \<and>
   flash_morsecode 0x8000 signal_pending =
     (Inl EFAULT, loaded\<lparr>events := [LED_FULL, Msleep 200]\<rparr>) \<and>
   my_read 100 0 signal_pending = (Inl EFAULT, [], loaded) \<and>
   process_morsecode CHR '' '' True signal_pending = (Inl EFAULT, loaded) \<and>
   is_letter CHR ''e'' \<and>
   process_morsecode CHR ''e'' True signal_pending = (Inl EFAULT, loaded) \<and>
   my_write (map Some ''e'') signal_pending =
     (Inl EFAULT, loaded\<lparr>events := [LED_FULL, Msleep 200]\<rparr>) \<and>
   interrupted_at (lock_outcomes signal_pending)
     (lock_outcomes (snd (my_write (map Some ''e'') signal_pending))) \<and>
   peek_ahead (map Some ''e e'') 1 CHR '' '' = Inr (Some 1) \<and>
   write_loop (map Some ''e e'') 1 True signal_pending = (Inl EFAULT, loaded) \<and>
   single_spaced ''e e'' \<and> locks_needed False ''e e'' = 4 \<and>
   lock_outcomes signal_at_gap = [True, False] \<and>
   \<not> list_all id (take (locks_needed False ''e e'') (lock_outcomes signal_at_gap)) \<and>
   fst (my_write (map Some ''e e'') signal_at_gap) = Inl EFAULT \<and>
   my_write (map Some ''e e'') signal_at_gap =
     (Inl EFAULT,
      loaded\<lparr>flashed_codes_queue := ''.'',
        events := [LED_FULL, Msleep 200, LED_OFF, Msleep 200]\<rparr>)"
proof -
  have pending: "lock_outcomes signal_pending = False # []"
    by (simp add: signal_pending_def)
  have after: "signal_pending\<lparr>lock_outcomes := []\<rparr> = loaded"
    by (simp add: signal_pending_def loaded_state)
  have letter: "is_letter CHR ''e''"
    by (simp add: is_letter_def)
  have nonzero: "(0x4000 :: ushort) \<noteq> 0"
    by simp
  have leading: "leftmost_bit 0x4000 \<noteq> 1"
    by (simp add: leftmost_bit_def)
  let ?lit = "signal_pending\<lparr>events := [LED_FULL, Msleep 200]\<rparr>"
  have lit: "lock_outcomes ?lit = False # []"
    by (simp add: signal_pending_def)
  have lit_after: "?lit\<lparr>lock_outcomes := []\<rparr> = loaded\<lparr>events := [LED_FULL, Msleep 200]\<rparr>"
    by (simp add: signal_pending_def loaded_state)
  have loop: "flash_loop 0x8000 0 signal_pending = (Inr 1, ?lit)"
    by code_simp
  have written: "my_write (map Some ''e'') signal_pending =
      (Inl EFAULT, loaded\<lparr>events := [LED_FULL, Msleep 200]\<rparr>)"
    by code_simp
  then have failed: "fst (my_write (map Some ''e'') signal_pending) = Inl EFAULT"
    by simp
  have peek: "peek_ahead (map Some ''e e'') 1 CHR '' '' = Inr (Some 1)"
    by code_simp
  have in_range: "1 < length (map Some ''e e'')"
    by simp
  have space: "map Some ''e e'' ! 1 = Some CHR '' ''"
    by simp
  have spaced: "single_spaced ''e e''"
    by (simp add: single_spaced_def is_letter_def)
  have needed: "locks_needed False ''e e'' = 4"
    by code_simp
  have outcomes: "lock_outcomes signal_at_gap = [True, False]"
    by (simp add: signal_at_gap_def)
  have short: "\<not> list_all id (take (locks_needed False ''e e'') (lock_outcomes signal_at_gap))"
    unfolding needed outcomes by simp
  have gap_written: "my_write (map Some ''e e'') signal_at_gap =
      (Inl EFAULT,
       loaded\<lparr>flashed_codes_queue := ''.'',
         events := [LED_FULL, Msleep 200, LED_OFF, Msleep 200]\<rparr>)"
    by code_simp
  note inst = lock_failure_aborts [OF pending, where n = 1 and m = "0x4000"
      and ?s0.0 = signal_pending and count = 100 and uncopied = 0 and first = True
      and ch = "CHR ''e''" and i = 1 and buff = "map Some ''e e''" and j = 1
      and e = EFAULT and cs = "''e''" and k = 0 and u = "()" and ?s1.0 = loaded]
  note inst_lit = lock_failure_aborts [OF lit, where n = 1 and m = "0x8000"
      and ?s0.0 = signal_pending and count = 100 and uncopied = 0 and first = True
      and ch = "CHR ''e''" and i = 1 and buff = "map Some ''e e''" and j = 1
      and e = EFAULT and cs = "''e''" and k = 0 and u = "()" and ?s1.0 = loaded]
  note inst_gap = lock_failure_aborts [OF pending, where n = 1 and m = "0x4000"
      and ?s0.0 = signal_at_gap and count = 100 and uncopied = 0 and first = True
      and ch = "CHR ''e''" and i = 1 and buff = "map Some ''e e''" and j = 1
      and e = EFAULT and cs = "''e e''" and k = 0 and u = "()" and ?s1.0 = loaded]
  have flushed: "put_valid_morsecode_into_queue 1 signal_pending = (Inl EFAULT, loaded)"
    using inst [THEN conjunct1] unfolding after by simp
  have in_loop: "flash_loop 0x4000 1 signal_pending = (Inl EFAULT, loaded)"
    using inst [THEN conjunct2, THEN conjunct1] nonzero leading unfolding after by simp
  have at_end: "flash_morsecode 0x8000 signal_pending =
      (Inl EFAULT, loaded\<lparr>events := [LED_FULL, Msleep 200]\<rparr>)"
    using inst_lit [THEN conjunct2, THEN conjunct2, THEN conjunct1] loop unfolding lit_after by simp
  have reading: "my_read 100 0 signal_pending = (Inl EFAULT, [], loaded)"
    using inst [THEN conjunct2, THEN conjunct2, THEN conjunct2, THEN conjunct1] unfolding after .
  have gap: "process_morsecode CHR '' '' True signal_pending = (Inl EFAULT, loaded)"
    using inst [THEN conjunct2, THEN conjunct2, THEN conjunct2, THEN conjunct2, THEN conjunct1] unfolding after .
  have separator: "process_morsecode CHR ''e'' True signal_pending = (Inl EFAULT, loaded)"
    using inst [THEN conjunct2, THEN conjunct2, THEN conjunct2, THEN conjunct2, THEN conjunct2, THEN conjunct1] letter unfolding after by simp
  have gap_in_loop: "write_loop (map Some ''e e'') 1 True signal_pending = (Inl EFAULT, loaded)"
    using inst [THEN conjunct2, THEN conjunct2, THEN conjunct2, THEN conjunct2, THEN conjunct2, THEN conjunct2, THEN conjunct2, THEN conjunct1] in_range space peek unfolding after by simp
  have last_one: "interrupted_at (lock_outcomes signal_pending)
      (lock_outcomes (snd (my_write (map Some ''e'') signal_pending)))"
    using inst [THEN conjunct2, THEN conjunct2, THEN conjunct2, THEN conjunct2, THEN conjunct2, THEN conjunct2, THEN conjunct2, THEN conjunct2, THEN conjunct2, THEN conjunct2, THEN conjunct2, THEN conjunct2, THEN conjunct2, THEN conjunct1] failed by (rule mp)
  have "(fst (my_write (map Some ''e e'') signal_at_gap) = Inl EFAULT) =
      (\<not> list_all id (take (locks_needed False ''e e'') (lock_outcomes signal_at_gap)))"
    using inst_gap [THEN conjunct2, THEN conjunct2, THEN conjunct2, THEN conjunct2, THEN conjunct2, THEN conjunct2, THEN conjunct2, THEN conjunct2, THEN conjunct2, THEN conjunct2, THEN conjunct2, THEN conjunct2, THEN conjunct2, THEN conjunct2, THEN conjunct2, THEN conjunct2, THEN conjunct2, THEN conjunct2, THEN conjunct1] spaced
    by (rule mp [THEN conjunct1])
  then have gap_failed: "fst (my_write (map Some ''e e'') signal_at_gap) = Inl EFAULT"
    using short by simp
  show ?thesis
    by (intro conjI)
      (fact pending, fact flushed, fact nonzero, fact leading, fact in_loop, fact loop,
       fact at_end, fact reading, fact gap, fact letter, fact separator, fact written,
       fact last_one, fact peek, fact gap_in_loop, fact spaced, fact needed, fact outcomes,
       fact short, fact gap_failed, fact gap_written)
qed

end
